theory Spec2Isabelle
  imports Main "HOL-Library.Word"
begin

section \<open>ECMAScript strings\<close>

text \<open>
  A string of the extension host is a sequence of 16-bit code units. ASCII literals of
  the source are written \<open>str ''...''\<close>.
\<close>

type_synonym code_unit = "16 word"
type_synonym jsstring = "code_unit list"

definition str :: "string \<Rightarrow> jsstring" where
  "str s = map of_char s"

text \<open>
  \<open>String.prototype.trim\<close> removes WhiteSpace and LineTerminator code units from both
  ends: TAB, LF, VT, FF, CR, SP, NBSP, the space separators U+1680, U+2000..U+200A, U+202F,
  U+205F, U+3000, the separators U+2028 and U+2029, and U+FEFF.
\<close>

definition isWhiteSpace :: "code_unit \<Rightarrow> bool" where
  "isWhiteSpace c \<longleftrightarrow>
     c = 0x9 \<or> c = 0xA \<or> c = 0xB \<or> c = 0xC \<or> c = 0xD \<or> c = 0x20 \<or> c = 0xA0 \<or>
     c = 0x1680 \<or> (0x2000 \<le> c \<and> c \<le> 0x200A) \<or> c = 0x2028 \<or> c = 0x2029 \<or>
     c = 0x202F \<or> c = 0x205F \<or> c = 0x3000 \<or> c = 0xFEFF"

definition trim :: "jsstring \<Rightarrow> jsstring" where
  "trim s = rev (dropWhile isWhiteSpace (rev (dropWhile isWhiteSpace s)))"

section \<open>JSON values of the runtime\<close>

text \<open>
  What \<open>JSON.parse\<close> returns: \<open>null\<close>, a Boolean, a Number, a String, an Array or an
  object, whose own properties are listed in the order in which the runtime enumerates
  them. The Number type \<open>'n\<close> (IEEE doubles in the runtime) and its two conversions are
  parameters of the model: \<open>StringToNumber\<close> reads a JSON number literal, and
  \<open>NumberToJSON\<close> is the text that \<open>JSON.stringify\<close> prints for a Number
  (\<open>Number::toString\<close> of a finite Number, \<open>null\<close> otherwise).
\<close>

datatype 'n json =
    JNull
  | JBool bool
  | JNumber 'n
  | JString jsstring
  | JArray "'n json list"
  | JObject "(jsstring \<times> 'n json) list"

record 'n numbers =
  StringToNumber :: "jsstring \<Rightarrow> 'n"
  NumberToJSON :: "'n \<Rightarrow> jsstring"

subsection \<open>Tokens of a JSON text\<close>

datatype token =
    LBrace | RBrace | LBracket | RBracket | Colon | Comma
  | TString jsstring | TNumber jsstring | TTrue | TFalse | TNull

definition isJsonWs :: "code_unit \<Rightarrow> bool" where
  "isJsonWs c \<longleftrightarrow> c = 0x9 \<or> c = 0xA \<or> c = 0xD \<or> c = 0x20"

definition isDigit :: "code_unit \<Rightarrow> bool" where
  "isDigit c \<longleftrightarrow> 0x30 \<le> c \<and> c \<le> 0x39"

definition hexval :: "code_unit \<Rightarrow> code_unit option" where
  "hexval c =
     (if 0x30 \<le> c \<and> c \<le> 0x39 then Some (c - 0x30)
      else if 0x41 \<le> c \<and> c \<le> 0x46 then Some (c - 0x41 + 10)
      else if 0x61 \<le> c \<and> c \<le> 0x66 then Some (c - 0x61 + 10)
      else None)"

definition hex4 :: "code_unit \<Rightarrow> code_unit \<Rightarrow> code_unit \<Rightarrow> code_unit \<Rightarrow> code_unit option" where
  "hex4 a b c d =
     (case (hexval a, hexval b, hexval c, hexval d) of
        (Some x, Some y, Some z, Some w) \<Rightarrow> Some (((x * 16 + y) * 16 + z) * 16 + w)
      | _ \<Rightarrow> None)"

text \<open>The single-character escapes of a JSON string: \<open>\" \\ \/ \b \f \n \r \t\<close>.\<close>

definition unescape :: "code_unit \<Rightarrow> code_unit option" where
  "unescape e =
     (if e = 0x22 then Some 0x22
      else if e = 0x5C then Some 0x5C
      else if e = 0x2F then Some 0x2F
      else if e = 0x62 then Some 0x8
      else if e = 0x66 then Some 0xC
      else if e = 0x6E then Some 0xA
      else if e = 0x72 then Some 0xD
      else if e = 0x74 then Some 0x9
      else None)"

text \<open>
  \<open>lex_string\<close> reads the characters of a string after its opening quote, up to and
  including the closing quote, and returns the string's value and the rest of the input.
  A raw code unit below U+0020 is not allowed.
\<close>

fun lex_string :: "jsstring \<Rightarrow> (jsstring \<times> jsstring) option" where
  "lex_string [] = None"
| "lex_string (c # cs) =
     (if c = 0x22 then Some ([], cs)
      else if c = 0x5C then
        (case cs of
           [] \<Rightarrow> None
         | e # es \<Rightarrow>
             if e = 0x75 then
               (case es of
                  h1 # h2 # h3 # h4 # rest \<Rightarrow>
                    (case hex4 h1 h2 h3 h4 of
                       None \<Rightarrow> None
                     | Some u \<Rightarrow> map_option (\<lambda>(s, r). (u # s, r)) (lex_string rest))
                | _ \<Rightarrow> None)
             else
               (case unescape e of
                  None \<Rightarrow> None
                | Some u \<Rightarrow> map_option (\<lambda>(s, r). (u # s, r)) (lex_string es)))
      else if c < 0x20 then None
      else map_option (\<lambda>(s, r). (c # s, r)) (lex_string cs))"

text \<open>
  A JSON number: an optional minus, an integer part (\<open>0\<close>, or a non-zero digit and more
  digits), an optional fraction (a point and at least one digit) and an optional exponent
  (\<open>e\<close> or \<open>E\<close>, an optional sign and at least one digit). Each part returns the text it
  read and the rest.
\<close>

definition lex_int :: "jsstring \<Rightarrow> (jsstring \<times> jsstring) option" where
  "lex_int cs =
     (case cs of
        [] \<Rightarrow> None
      | c # r \<Rightarrow>
          if c = 0x30 then Some ([c], r)
          else if isDigit c then Some (c # takeWhile isDigit r, dropWhile isDigit r)
          else None)"

definition lex_digits :: "jsstring \<Rightarrow> (jsstring \<times> jsstring) option" where
  "lex_digits cs =
     (if takeWhile isDigit cs = [] then None
      else Some (takeWhile isDigit cs, dropWhile isDigit cs))"

definition lex_frac :: "jsstring \<Rightarrow> (jsstring \<times> jsstring) option" where
  "lex_frac cs =
     (case cs of
        [] \<Rightarrow> Some ([], [])
      | c # r \<Rightarrow>
          if c = 0x2E then map_option (\<lambda>(d, r'). (c # d, r')) (lex_digits r)
          else Some ([], cs))"

definition lex_exp :: "jsstring \<Rightarrow> (jsstring \<times> jsstring) option" where
  "lex_exp cs =
     (case cs of
        [] \<Rightarrow> Some ([], [])
      | c # r \<Rightarrow>
          if c = 0x65 \<or> c = 0x45 then
            (case r of
               [] \<Rightarrow> None
             | g # r' \<Rightarrow>
                 if g = 0x2B \<or> g = 0x2D
                 then map_option (\<lambda>(d, r''). (c # g # d, r'')) (lex_digits r')
                 else map_option (\<lambda>(d, r''). (c # d, r'')) (lex_digits r))
          else Some ([], cs))"

definition lex_unsigned :: "jsstring \<Rightarrow> (jsstring \<times> jsstring) option" where
  "lex_unsigned cs =
     (case lex_int cs of
        None \<Rightarrow> None
      | Some (i, r1) \<Rightarrow>
          (case lex_frac r1 of
             None \<Rightarrow> None
           | Some (f, r2) \<Rightarrow>
               (case lex_exp r2 of
                  None \<Rightarrow> None
                | Some (e, r3) \<Rightarrow> Some (i @ f @ e, r3))))"

definition lex_number :: "jsstring \<Rightarrow> (jsstring \<times> jsstring) option" where
  "lex_number cs =
     (case cs of
        [] \<Rightarrow> None
      | c # r \<Rightarrow>
          if c = 0x2D then map_option (\<lambda>(n, r'). (c # n, r')) (lex_unsigned r)
          else lex_unsigned cs)"

lemma lex_string_shorter: "lex_string cs = Some (s, r) \<Longrightarrow> length r < Suc (length cs)"
proof (induction cs arbitrary: s r rule: lex_string.induct)
  case 1
  then show ?case by simp
next
  case (2 c cs)
  then show ?case
    by (fastforce split: if_splits list.splits option.splits)
qed

lemma lex_digits_shorter: "lex_digits cs = Some (d, r) \<Longrightarrow> length r < length cs"
proof -
  assume a: "lex_digits cs = Some (d, r)"
  then have "takeWhile isDigit cs \<noteq> []" and "r = dropWhile isDigit cs"
    by (auto simp: lex_digits_def split: if_splits)
  moreover have "length (takeWhile isDigit cs) + length (dropWhile isDigit cs) = length cs"
    by (metis length_append takeWhile_dropWhile_id)
  ultimately show ?thesis
    by (cases "takeWhile isDigit cs") auto
qed

lemma lex_int_shorter: "lex_int cs = Some (i, r) \<Longrightarrow> length r < length cs"
  by (auto simp: lex_int_def less_Suc_eq_le length_dropWhile_le split: list.splits if_splits)

lemma lex_frac_shorter: "lex_frac cs = Some (f, r) \<Longrightarrow> length r \<le> length cs"
  by (auto simp: lex_frac_def split: list.splits if_splits dest!: lex_digits_shorter)

lemma lex_exp_shorter: "lex_exp cs = Some (e, r) \<Longrightarrow> length r \<le> length cs"
  by (auto simp: lex_exp_def split: list.splits if_splits dest!: lex_digits_shorter)

lemma lex_unsigned_shorter: "lex_unsigned cs = Some (n, r) \<Longrightarrow> length r < length cs"
  by (auto simp: lex_unsigned_def split: option.splits
      dest!: lex_int_shorter lex_frac_shorter lex_exp_shorter)

lemma lex_number_shorter: "lex_number cs = Some (n, r) \<Longrightarrow> length r < length cs"
  by (auto simp: lex_number_def split: list.splits if_splits dest!: lex_unsigned_shorter)

text \<open>
  The tokens of a text, or \<open>None\<close> where no token starts. White space between tokens is
  TAB, LF, CR and SP only.
\<close>

function tokenize :: "jsstring \<Rightarrow> token list option" where
  "tokenize [] = Some []"
| "tokenize (c # cs) =
     (if isJsonWs c then tokenize cs
      else if c = 0x7B then map_option ((#) LBrace) (tokenize cs)
      else if c = 0x7D then map_option ((#) RBrace) (tokenize cs)
      else if c = 0x5B then map_option ((#) LBracket) (tokenize cs)
      else if c = 0x5D then map_option ((#) RBracket) (tokenize cs)
      else if c = 0x3A then map_option ((#) Colon) (tokenize cs)
      else if c = 0x2C then map_option ((#) Comma) (tokenize cs)
      else if c = 0x22 then
        (case lex_string cs of
           None \<Rightarrow> None
         | Some (s, rest) \<Rightarrow> map_option ((#) (TString s)) (tokenize rest))
      else if c = 0x2D \<or> isDigit c then
        (case lex_number (c # cs) of
           None \<Rightarrow> None
         | Some (n, rest) \<Rightarrow> map_option ((#) (TNumber n)) (tokenize rest))
      else if take 4 (c # cs) = str ''true'' then map_option ((#) TTrue) (tokenize (drop 3 cs))
      else if take 5 (c # cs) = str ''false'' then map_option ((#) TFalse) (tokenize (drop 4 cs))
      else if take 4 (c # cs) = str ''null'' then map_option ((#) TNull) (tokenize (drop 3 cs))
      else None)"
  by pat_completeness auto
termination
proof (relation "measure length")
  fix c cs x2 s rest
  assume "lex_string cs = Some x2" "(s, rest) = x2"
  then show "(rest, c # cs) \<in> measure length"
    using lex_string_shorter [of cs s rest] by simp
next
  fix c cs x2 n rest
  assume "lex_number (c # cs) = Some x2" "(n, rest) = x2"
  then show "(rest, c # cs) \<in> measure length"
    using lex_number_shorter [of "c # cs" n rest] by simp
qed auto

subsection \<open>Objects\<close>

text \<open>
  An array index is the canonical decimal text of an integer from 0 to \<open>2^32 - 2\<close>. The
  runtime lists the array-index keys of an object first, in ascending order, and the other
  keys after them in the order of their creation. \<open>CreateDataProperty\<close> on an existing
  key replaces the value and keeps the key's place; a new array-index key goes behind the
  array-index keys that are not larger, a new key of the other kind to the end.
\<close>

definition indexValue :: "jsstring \<Rightarrow> int" where
  "indexValue k = foldl (\<lambda>n c. 10 * n + (uint c - 0x30)) 0 k"

definition isArrayIndex :: "jsstring \<Rightarrow> bool" where
  "isArrayIndex k \<longleftrightarrow>
     k \<noteq> [] \<and> list_all isDigit k \<and> (hd k \<noteq> 0x30 \<or> length k = 1) \<and>
     indexValue k < 4294967295"

fun insertIndex :: "jsstring \<Rightarrow> 'v \<Rightarrow> (jsstring \<times> 'v) list \<Rightarrow> (jsstring \<times> 'v) list" where
  "insertIndex k v [] = [(k, v)]"
| "insertIndex k v ((k', v') # ms) =
     (if isArrayIndex k' \<and> indexValue k' \<le> indexValue k
      then (k', v') # insertIndex k v ms
      else (k, v) # (k', v') # ms)"

definition CreateDataProperty ::
  "jsstring \<Rightarrow> 'v \<Rightarrow> (jsstring \<times> 'v) list \<Rightarrow> (jsstring \<times> 'v) list" where
  "CreateDataProperty k v ms =
     (if k \<in> set (map fst ms) then map (\<lambda>(k', v'). if k' = k then (k', v) else (k', v')) ms
      else if isArrayIndex k then insertIndex k v ms
      else ms @ [(k, v)])"

subsection \<open>JSON.parse\<close>

text \<open>
  The parser runs over the tokens with a stack of the open arrays and objects. A frame
  holds the elements read so far, or the members read so far and the key whose value is
  being read.
\<close>

datatype 'n frame =
    FArray "'n json list"
  | FObject "(jsstring \<times> 'n json) list" jsstring

datatype 'n mode =
    MValue
  | MFirstElem
  | MFirstKey
  | MKey "(jsstring \<times> 'n json) list"
  | MColon "(jsstring \<times> 'n json) list" jsstring
  | MNextElem "'n json list"
  | MNextMember "(jsstring \<times> 'n json) list"
  | MDone "'n json"

text \<open>A complete value goes to the innermost open container, or is the result.\<close>

fun deliver :: "'n json \<Rightarrow> 'n frame list \<Rightarrow> 'n mode \<times> 'n frame list" where
  "deliver v [] = (MDone v, [])"
| "deliver v (FArray es # st) = (MNextElem (es @ [v]), st)"
| "deliver v (FObject ms k # st) = (MNextMember (CreateDataProperty k v ms), st)"

fun start_value ::
  "'n numbers \<Rightarrow> token \<Rightarrow> 'n frame list \<Rightarrow> ('n mode \<times> 'n frame list) option" where
  "start_value rt TNull st = Some (deliver JNull st)"
| "start_value rt TTrue st = Some (deliver (JBool True) st)"
| "start_value rt TFalse st = Some (deliver (JBool False) st)"
| "start_value rt (TNumber n) st = Some (deliver (JNumber (StringToNumber rt n)) st)"
| "start_value rt (TString s) st = Some (deliver (JString s) st)"
| "start_value rt LBracket st = Some (MFirstElem, st)"
| "start_value rt LBrace st = Some (MFirstKey, st)"
| "start_value rt _ st = None"

fun step ::
  "'n numbers \<Rightarrow> 'n mode \<times> 'n frame list \<Rightarrow> token \<Rightarrow> ('n mode \<times> 'n frame list) option" where
  "step rt (MValue, st) t = start_value rt t st"
| "step rt (MFirstElem, st) t =
     (if t = RBracket then Some (deliver (JArray []) st)
      else start_value rt t (FArray [] # st))"
| "step rt (MFirstKey, st) t =
     (case t of
        RBrace \<Rightarrow> Some (deliver (JObject []) st)
      | TString k \<Rightarrow> Some (MColon [] k, st)
      | _ \<Rightarrow> None)"
| "step rt (MKey ms, st) t =
     (case t of TString k \<Rightarrow> Some (MColon ms k, st) | _ \<Rightarrow> None)"
| "step rt (MColon ms k, st) t =
     (case t of Colon \<Rightarrow> Some (MValue, FObject ms k # st) | _ \<Rightarrow> None)"
| "step rt (MNextElem es, st) t =
     (case t of
        Comma \<Rightarrow> Some (MValue, FArray es # st)
      | RBracket \<Rightarrow> Some (deliver (JArray es) st)
      | _ \<Rightarrow> None)"
| "step rt (MNextMember ms, st) t =
     (case t of
        Comma \<Rightarrow> Some (MKey ms, st)
      | RBrace \<Rightarrow> Some (deliver (JObject ms) st)
      | _ \<Rightarrow> None)"
| "step rt (MDone v, st) t = None"

fun run ::
  "'n numbers \<Rightarrow> 'n mode \<times> 'n frame list \<Rightarrow> token list \<Rightarrow> ('n mode \<times> 'n frame list) option" where
  "run rt c [] = Some c"
| "run rt c (t # ts) = (case step rt c t of None \<Rightarrow> None | Some c' \<Rightarrow> run rt c' ts)"

text \<open>\<open>JSON.parse\<close>: the value of the text, or \<open>None\<close> where it throws a SyntaxError.\<close>

definition JSON_parse :: "'n numbers \<Rightarrow> jsstring \<Rightarrow> 'n json option" where
  "JSON_parse rt text =
     (case tokenize text of
        None \<Rightarrow> None
      | Some ts \<Rightarrow>
          (case run rt (MValue, []) ts of
             Some (MDone v, _) \<Rightarrow> Some v
           | _ \<Rightarrow> None))"

subsection \<open>JSON.stringify\<close>

definition hexdigit :: "code_unit \<Rightarrow> code_unit" where
  "hexdigit n = (if n < 10 then 0x30 + n else 0x61 + (n - 10))"

definition UnicodeEscape :: "code_unit \<Rightarrow> jsstring" where
  "UnicodeEscape c =
     [0x5C, 0x75, hexdigit (c div 4096 mod 16), hexdigit (c div 256 mod 16),
      hexdigit (c div 16 mod 16), hexdigit (c mod 16)]"

definition isLeadingSurrogate :: "code_unit \<Rightarrow> bool" where
  "isLeadingSurrogate c \<longleftrightarrow> 0xD800 \<le> c \<and> c \<le> 0xDBFF"

definition isTrailingSurrogate :: "code_unit \<Rightarrow> bool" where
  "isTrailingSurrogate c \<longleftrightarrow> 0xDC00 \<le> c \<and> c \<le> 0xDFFF"

text \<open>
  One code unit inside a quoted string, when it is not part of a surrogate pair: the short
  escapes, a Unicode escape for the other control characters and for a lone surrogate, and
  the code unit itself otherwise.
\<close>

definition quoteUnit :: "code_unit \<Rightarrow> jsstring" where
  "quoteUnit c =
     (if c = 0x8 then [0x5C, 0x62]
      else if c = 0x9 then [0x5C, 0x74]
      else if c = 0xA then [0x5C, 0x6E]
      else if c = 0xC then [0x5C, 0x66]
      else if c = 0xD then [0x5C, 0x72]
      else if c = 0x22 then [0x5C, 0x22]
      else if c = 0x5C then [0x5C, 0x5C]
      else if c < 0x20 \<or> isLeadingSurrogate c \<or> isTrailingSurrogate c then UnicodeEscape c
      else [c])"

fun quoteUnits :: "jsstring \<Rightarrow> jsstring" where
  "quoteUnits [] = []"
| "quoteUnits [c] = quoteUnit c"
| "quoteUnits (c # d # cs) =
     (if isLeadingSurrogate c \<and> isTrailingSurrogate d then c # d # quoteUnits cs
      else quoteUnit c @ quoteUnits (d # cs))"

definition QuoteJSONString :: "jsstring \<Rightarrow> jsstring" where
  "QuoteJSONString s = 0x22 # quoteUnits s @ [0x22]"

fun join :: "'a list \<Rightarrow> 'a list list \<Rightarrow> 'a list" where
  "join sep [] = []"
| "join sep [x] = x"
| "join sep (x # y # ys) = x @ sep @ join sep (y # ys)"

text \<open>
  \<open>SerializeJSONProperty\<close> with a non-empty gap: \<open>indent\<close> is the current indentation.
  An empty array is \<open>[]\<close> and an empty object \<open>{}\<close>; otherwise every element or member
  is on a line of its own, one gap deeper, and the closing bracket is at the current
  indentation. A member is its quoted key, a colon, a space and its value.
\<close>

fun SerializeJSONProperty :: "'n numbers \<Rightarrow> jsstring \<Rightarrow> jsstring \<Rightarrow> 'n json \<Rightarrow> jsstring" where
  "SerializeJSONProperty rt gap indent JNull = str ''null''"
| "SerializeJSONProperty rt gap indent (JBool b) = (if b then str ''true'' else str ''false'')"
| "SerializeJSONProperty rt gap indent (JNumber n) = NumberToJSON rt n"
| "SerializeJSONProperty rt gap indent (JString s) = QuoteJSONString s"
| "SerializeJSONProperty rt gap indent (JArray es) =
     (if es = [] then str ''[]''
      else [0x5B, 0xA] @ indent @ gap
        @ join ([0x2C, 0xA] @ indent @ gap)
            (map (SerializeJSONProperty rt gap (indent @ gap)) es)
        @ [0xA] @ indent @ [0x5D])"
| "SerializeJSONProperty rt gap indent (JObject ms) =
     (if ms = [] then str ''{}''
      else [0x7B, 0xA] @ indent @ gap
        @ join ([0x2C, 0xA] @ indent @ gap)
            (map (\<lambda>m. QuoteJSONString (fst m) @ [0x3A, 0x20]
                        @ SerializeJSONProperty rt gap (indent @ gap) (snd m)) ms)
        @ [0xA] @ indent @ [0x7D])"

text \<open>\<open>JSON.stringify(value, undefined, 4)\<close>: the gap is four spaces.\<close>

definition JSON_stringify4 :: "'n numbers \<Rightarrow> 'n json \<Rightarrow> jsstring" where
  "JSON_stringify4 rt v = SerializeJSONProperty rt (replicate 4 0x20) [] v"

section \<open>The editor session (\<open>resolveCustomTextEditor\<close>)\<close>

text \<open>
  The document of the host: its URI as a string, its file name and its text. The host owns
  it; the session reads \<open>document.getText()\<close> whenever it sends a message.
\<close>

record text_document =
  uri :: string
  fileName :: string
  getText :: jsstring

text \<open>A message posted to the webview: \<open>{type, text}\<close>.\<close>

record message =
  msg_type :: string
  msg_text :: jsstring

text \<open>A message received from the webview: \<open>e.type\<close> and \<open>e.content\<close>.\<close>

record webview_message =
  e_type :: string
  e_content :: jsstring

text \<open>
  A \<open>TextDocumentChangeEvent\<close>: the URI of \<open>e.document\<close>, the texts of
  \<open>e.contentChanges\<close>, and \<open>e.reason\<close>, which is 1 for an undo, 2 for a redo, and
  undefined otherwise.
\<close>

record change_event =
  ev_uri :: string
  contentChanges :: "jsstring list"
  reason :: "nat option"

record text_editor =
  viewColumn :: nat
  editor_document :: text_document

datatype js_error = Error string | TypeError string

text \<open>
  The state of one session: the host objects that the closures of
  \<open>resolveCustomTextEditor\<close> read and write (the document, \<open>webviewPanel.visible\<close>,
  the messages posted to the webview, the status bar messages on display), the closure
  variables \<open>isBuffer\<close>, \<open>isConfigStdEditor\<close>, \<open>isUpdateFromWebview\<close> and
  \<open>jsonErrorMsg\<close> (\<open>None\<close> while the variable is unassigned), and the provider's field
  \<open>isValidJson\<close>.
\<close>

record state =
  document :: text_document
  visible :: bool
  posted :: "message list"
  statusBar :: "(nat \<times> string) list"
  nextDisposable :: nat
  shownBeside :: bool
  isBuffer :: bool
  isConfigStdEditor :: bool
  isUpdateFromWebview :: bool
  jsonErrorMsg :: "nat option"
  isValidJson :: bool

text \<open>A call returns a value and the state, or throws and leaves the state it reached.\<close>

datatype 'a outcome = Returned 'a state | Raised js_error state

fun state_of :: "'a outcome \<Rightarrow> state" where
  "state_of (Returned x s) = s"
| "state_of (Raised e s) = s"

fun raised :: "'a outcome \<Rightarrow> js_error option" where
  "raised (Returned x s) = None"
| "raised (Raised e s) = Some e"

subsection \<open>Host operations\<close>

definition postMessage :: "message \<Rightarrow> state \<Rightarrow> state" where
  "postMessage m s = s\<lparr>posted := posted s @ [m]\<rparr>"

text \<open>
  \<open>setStatusBarMessage\<close> shows a message and returns its Disposable; disposing it takes
  the message off the status bar.
\<close>

definition setStatusBarMessage :: "string \<Rightarrow> state \<Rightarrow> nat \<times> state" where
  "setStatusBarMessage txt s =
     (nextDisposable s,
      s\<lparr>statusBar := statusBar s @ [(nextDisposable s, txt)],
        nextDisposable := Suc (nextDisposable s)\<rparr>)"

definition dispose :: "nat \<Rightarrow> state \<Rightarrow> state" where
  "dispose h s = s\<lparr>statusBar := filter (\<lambda>m. fst m \<noteq> h) (statusBar s)\<rparr>"

text \<open>
  \<open>applyEdit\<close> of the edit built by \<open>setChangesToDocument\<close>: the range from (0, 0) to
  (\<open>document.lineCount\<close>, 0) covers the whole document, so the text is replaced.
\<close>

definition applyEdit :: "jsstring \<Rightarrow> state \<Rightarrow> state" where
  "applyEdit txt s = s\<lparr>document := (document s)\<lparr>getText := txt\<rparr>\<rparr>"

subsection \<open>\<open>getContentAsJson\<close> and \<open>setChangesToDocument\<close>\<close>

definition getContentAsJson :: "'n numbers \<Rightarrow> jsstring \<Rightarrow> state \<Rightarrow> 'n json outcome" where
  "getContentAsJson rt content s =
     (if length (trim content) = 0 then Returned (JString (str ''{}'')) s
      else
        (case JSON_parse rt content of
           Some v \<Rightarrow> Returned v s
         | None \<Rightarrow>
             Raised (Error ''Could not get document as json. Content is not valid json'')
               (s\<lparr>isValidJson := False\<rparr>)))"

definition setChangesToDocument :: "'n numbers \<Rightarrow> jsstring \<Rightarrow> state \<Rightarrow> unit outcome" where
  "setChangesToDocument rt content s =
     (case getContentAsJson rt content s of
        Raised e s' \<Rightarrow> Raised e s'
      | Returned v s' \<Rightarrow> Returned () (applyEdit (JSON_stringify4 rt v) s'))"

subsection \<open>The event handlers\<close>

definition updateWebview :: "string \<Rightarrow> state \<Rightarrow> state" where
  "updateWebview msgType s =
     postMessage \<lparr>msg_type = msgType, msg_text = getText (document s)\<rparr> s"

definition onDidChangeTextDocument :: "change_event \<Rightarrow> state \<Rightarrow> state" where
  "onDidChangeTextDocument e s =
     (if ev_uri e = uri (document s) \<and> length (contentChanges e) \<noteq> 0 then
        if \<not> visible s then s\<lparr>isBuffer := True\<rparr>
        else
          (case reason e of
             Some r \<Rightarrow>
               if r = 1 then updateWebview ''vuejsoneditor.undo'' s
               else if r = 2 then updateWebview ''vuejsoneditor.redo'' s
               else s
           | None \<Rightarrow>
               (if \<not> isUpdateFromWebview s
                then updateWebview ''vuejsoneditor.updateFromExtension'' s
                else s)\<lparr>isUpdateFromWebview := False\<rparr>)
      else s)"

definition onDidChangeViewState :: "state \<Rightarrow> state" where
  "onDidChangeViewState s =
     (if visible s \<and> isBuffer s then
        (postMessage
           \<lparr>msg_type = ''vuejsoneditor.updateFromExtension'',
            msg_text = getText (document s)\<rparr> s)\<lparr>isBuffer := False\<rparr>
      else s)"

definition onDidReceiveMessage :: "'n numbers \<Rightarrow> webview_message \<Rightarrow> state \<Rightarrow> unit outcome" where
  "onDidReceiveMessage rt e s =
     (if e_type e = ''vuejsoneditor.updateFromWebview'' then
        (case setChangesToDocument rt (e_content e) (s\<lparr>isUpdateFromWebview := True\<rparr>) of
           Raised err s' \<Rightarrow> Raised err s'
         | Returned _ s' \<Rightarrow>
             if \<not> isValidJson s' then
               (case jsonErrorMsg s' of
                  None \<Rightarrow>
                    Raised (TypeError ''Cannot read properties of undefined (reading dispose)'') s'
                | Some h \<Rightarrow> Returned () ((dispose h s')\<lparr>isValidJson := True\<rparr>))
             else Returned () s')
      else if e_type e = ''vuejsoneditor.noValidJson'' then
        (if isValidJson s then
           (case setStatusBarMessage ''No valid JSON!'' s of
              (h, s') \<Rightarrow> Returned () (s'\<lparr>jsonErrorMsg := Some h, isValidJson := False\<rparr>))
         else Returned () s)
      else Returned () s)"

text \<open>
  \<open>onDidChangeVisibleTextEditors\<close> and \<open>onDidDispose\<close> go through the host's visible
  text editors and, for every editor on the session's file, ask the host to show the
  document of that editor and then to close the active editor. The result is the list of
  the editors for which this request is issued; which editor the host then closes is not
  decided here.
\<close>

definition sameFile :: "text_document \<Rightarrow> text_editor \<Rightarrow> bool" where
  "sameFile doc ed \<longleftrightarrow> fileName (editor_document ed) = fileName doc"


definition onDidDispose :: "text_document \<Rightarrow> text_editor list \<Rightarrow> text_editor list" where
  "onDidDispose doc editors = filter (sameFile doc) editors"

text \<open>
  \<open>resolveCustomTextEditor\<close>: the closure variables get their initial values, the
  handlers are registered, the initial message is posted, and the standard editor is shown
  beside when the configuration asks for it and no text editor is visible.
\<close>

definition resolveCustomTextEditor ::
  "text_document \<Rightarrow> bool \<Rightarrow> bool \<Rightarrow> text_editor list \<Rightarrow> bool \<Rightarrow> state" where
  "resolveCustomTextEditor doc panelVisible openStandardEditor visibleTextEditors valid =
     (let s = postMessage
                \<lparr>msg_type = ''vuejsoneditor.updateFromExtension'', msg_text = getText doc\<rparr>
                \<lparr>document = doc, visible = panelVisible, posted = [], statusBar = [],
                 nextDisposable = 0, shownBeside = False, isBuffer = False,
                 isConfigStdEditor = openStandardEditor, isUpdateFromWebview = False,
                 jsonErrorMsg = None, isValidJson = valid\<rparr>
      in if isConfigStdEditor s \<and> length visibleTextEditors = 0
         then s\<lparr>shownBeside := True\<rparr> else s)"

subsection \<open>What the host does to a session\<close>

text \<open>
  The host dispatches its events one at a time. It changes the document's text and fires
  the change event; it changes \<open>webviewPanel.visible\<close> and fires the view-state event;
  it delivers a message of the webview (an error thrown by the handler ends that dispatch
  only); it changes the configuration; and another session of the same provider may write
  the provider's \<open>isValidJson\<close>.
\<close>

datatype host_event =
    DocumentChanged jsstring change_event
  | ViewStateChanged bool
  | MessageReceived webview_message
  | ConfigurationChanged bool
  | ProviderValidity bool

fun dispatch :: "'n numbers \<Rightarrow> host_event \<Rightarrow> state \<Rightarrow> state" where
  "dispatch rt (DocumentChanged txt e) s =
     onDidChangeTextDocument e (s\<lparr>document := (document s)\<lparr>getText := txt\<rparr>\<rparr>)"
| "dispatch rt (ViewStateChanged v) s = onDidChangeViewState (s\<lparr>visible := v\<rparr>)"
| "dispatch rt (MessageReceived m) s = state_of (onDidReceiveMessage rt m s)"
| "dispatch rt (ConfigurationChanged b) s = s\<lparr>isConfigStdEditor := b\<rparr>"
| "dispatch rt (ProviderValidity b) s = s\<lparr>isValidJson := b\<rparr>"

definition dispatch_all :: "'n numbers \<Rightarrow> host_event list \<Rightarrow> state \<Rightarrow> state" where
  "dispatch_all rt es s = fold (dispatch rt) es s"

text \<open>
  The host changes the text of the session's document to \<open>txt\<close>, for the reason
  \<open>r\<close>, and reports the change.
\<close>

definition documentEdited :: "jsstring \<Rightarrow> nat option \<Rightarrow> state \<Rightarrow> state" where
  "documentEdited txt r s =
     onDidChangeTextDocument
       \<lparr>ev_uri = uri (document s), contentChanges = [txt], reason = r\<rparr>
       (s\<lparr>document := (document s)\<lparr>getText := txt\<rparr>\<rparr>)"

text \<open>The panel becomes visible or hidden, and the view-state handler runs.\<close>

definition viewStateChanged :: "bool \<Rightarrow> state \<Rightarrow> state" where
  "viewStateChanged v s = onDidChangeViewState (s\<lparr>visible := v\<rparr>)"

subsection \<open>Sample inputs\<close>

text \<open>
  A number conversion that prints every literal as it was written. It agrees with the
  runtime on the literals used below (\<open>1\<close> and \<open>2\<close>).
\<close>

definition verbatim_numbers :: "jsstring numbers" where
  "verbatim_numbers = \<lparr>StringToNumber = (\<lambda>lit. lit), NumberToJSON = (\<lambda>n. n)\<rparr>"

definition sample_document :: text_document where
  "sample_document =
     \<lparr>uri = ''file:///work/a.form'', fileName = ''/work/a.form'', getText = str ''{\"a\":1}''\<rparr>"

definition updateFromWebview :: "jsstring \<Rightarrow> webview_message" where
  "updateFromWebview content =
     \<lparr>e_type = ''vuejsoneditor.updateFromWebview'', e_content = content\<rparr>"

definition noValidJson :: webview_message where
  "noValidJson = \<lparr>e_type = ''vuejsoneditor.noValidJson'', e_content = []\<rparr>"

definition visible_session :: state where
  "visible_session = resolveCustomTextEditor sample_document True False [] True"

definition hidden_session :: state where
  "hidden_session = resolveCustomTextEditor sample_document False False [] True"

definition plain_event :: change_event where
  "plain_event =
     \<lparr>ev_uri = ''file:///work/a.form'', contentChanges = [str ''{}''], reason = None\<rparr>"

definition undo_event :: change_event where
  "undo_event =
     \<lparr>ev_uri = ''file:///work/a.form'', contentChanges = [str ''{}''], reason = Some 1\<rparr>"



text \<open>
  The hidden session after the webview has submitted \<open>{"b":2}\<close> and the host has reported
  the resulting plain change of the document.
\<close>

definition hidden_echo :: state where
  "hidden_echo =
     onDidChangeTextDocument plain_event
       (state_of (onDidReceiveMessage verbatim_numbers (updateFromWebview (str ''{\"b\":2}''))
          hidden_session))"

section \<open>What \<open>JSON.parse\<close> reads back from \<open>JSON.stringify\<close>\<close>

text \<open>
  The runtime's conversions of Numbers are parameters. What is assumed of them is what
  ECMAScript gives for IEEE doubles: the text printed for a Number that was read from a
  JSON number literal is \<open>null\<close> (the Number is not finite), or it is again a JSON number
  literal, and the Number read from that literal prints as the same text
  (\<open>Number::toString\<close> prints a finite Number so that it reads back).
\<close>

definition isJsonNumber :: "jsstring \<Rightarrow> bool" where
  "isJsonNumber t \<longleftrightarrow> lex_number t = Some (t, [])"

definition good_number :: "'n numbers \<Rightarrow> 'n \<Rightarrow> bool" where
  "good_number rt n \<longleftrightarrow>
     NumberToJSON rt n = str ''null'' \<or>
     (isJsonNumber (NumberToJSON rt n) \<and>
      NumberToJSON rt (StringToNumber rt (NumberToJSON rt n)) = NumberToJSON rt n)"

definition numbers_roundtrip :: "'n numbers \<Rightarrow> bool" where
  "numbers_roundtrip rt \<longleftrightarrow> (\<forall>lit. isJsonNumber lit \<longrightarrow> good_number rt (StringToNumber rt lit))"

text \<open>
  The keys of an object as the runtime enumerates them: no key twice, and the array-index
  keys first, in ascending order. A value is canonical when its Numbers print as above
  and its objects have their keys in this order.
\<close>

fun ordered_keys :: "jsstring list \<Rightarrow> bool" where
  "ordered_keys [] = True"
| "ordered_keys [k] = True"
| "ordered_keys (k # k' # ks) =
     ((isArrayIndex k' \<longrightarrow> isArrayIndex k \<and> indexValue k \<le> indexValue k')
      \<and> ordered_keys (k' # ks))"

fun canonical :: "'n numbers \<Rightarrow> 'n json \<Rightarrow> bool" where
  "canonical rt JNull = True"
| "canonical rt (JBool b) = True"
| "canonical rt (JNumber n) = good_number rt n"
| "canonical rt (JString s) = True"
| "canonical rt (JArray es) = (\<forall>e \<in> set es. canonical rt e)"
| "canonical rt (JObject ms) =
     (distinct (map fst ms) \<and> ordered_keys (map fst ms) \<and> (\<forall>m \<in> set ms. canonical rt (snd m)))"

text \<open>
  The tokens of the text that \<open>JSON.stringify\<close> prints for a value, and the value that
  \<open>JSON.parse\<close> builds from them: a Number that prints as \<open>null\<close> comes back as
  \<open>null\<close>, any other Number comes back as the Number read from its text.
\<close>

fun tokens :: "'n numbers \<Rightarrow> 'n json \<Rightarrow> token list" where
  "tokens rt JNull = [TNull]"
| "tokens rt (JBool b) = [if b then TTrue else TFalse]"
| "tokens rt (JNumber n) =
     (if NumberToJSON rt n = str ''null'' then [TNull] else [TNumber (NumberToJSON rt n)])"
| "tokens rt (JString s) = [TString s]"
| "tokens rt (JArray es) = LBracket # join [Comma] (map (tokens rt) es) @ [RBracket]"
| "tokens rt (JObject ms) =
     LBrace # join [Comma] (map (\<lambda>m. TString (fst m) # Colon # tokens rt (snd m)) ms)
       @ [RBrace]"

fun more_elements :: "'n numbers \<Rightarrow> 'n json list \<Rightarrow> token list" where
  "more_elements rt [] = []"
| "more_elements rt (x # xs) = Comma # tokens rt x @ more_elements rt xs"

fun more_members :: "'n numbers \<Rightarrow> (jsstring \<times> 'n json) list \<Rightarrow> token list" where
  "more_members rt [] = []"
| "more_members rt (m # ms) =
     Comma # TString (fst m) # Colon # tokens rt (snd m) @ more_members rt ms"

fun reparsed :: "'n numbers \<Rightarrow> 'n json \<Rightarrow> 'n json" where
  "reparsed rt JNull = JNull"
| "reparsed rt (JBool b) = JBool b"
| "reparsed rt (JNumber n) =
     (if NumberToJSON rt n = str ''null'' then JNull
      else JNumber (StringToNumber rt (NumberToJSON rt n)))"
| "reparsed rt (JString s) = JString s"
| "reparsed rt (JArray es) = JArray (map (reparsed rt) es)"
| "reparsed rt (JObject ms) = JObject (map (\<lambda>m. (fst m, reparsed rt (snd m))) ms)"

text \<open>
  A text after which a number literal or a keyword ends: the end of the input, a comma or
  a line feed.
\<close>

definition stops :: "jsstring \<Rightarrow> bool" where
  "stops rest \<longleftrightarrow> rest = [] \<or> hd rest = 0x2C \<or> hd rest = 0xA"

text \<open>The parser where a value must start, on the open containers \<open>st\<close>.\<close>

definition value_run ::
  "'n numbers \<Rightarrow> 'n frame list \<Rightarrow> token list \<Rightarrow> ('n mode \<times> 'n frame list) option" where
  "value_run rt st ts =
     (case ts of
        [] \<Rightarrow> None
      | t # ts' \<Rightarrow> (case start_value rt t st of None \<Rightarrow> None | Some c \<Rightarrow> run rt c ts'))"

definition reads_back :: "'n numbers \<Rightarrow> 'n json \<Rightarrow> bool" where
  "reads_back rt v \<longleftrightarrow>
     (\<forall>st rest. value_run rt st (tokens rt v @ rest) = run rt (deliver (reparsed rt v) st) rest)"

text \<open>
  The invariant of the parser: the number tokens are JSON number literals, and every
  value, array and object under construction is canonical.
\<close>

fun valid_token :: "token \<Rightarrow> bool" where
  "valid_token (TNumber n) = isJsonNumber n"
| "valid_token _ = True"

fun canonical_frame :: "'n numbers \<Rightarrow> 'n frame \<Rightarrow> bool" where
  "canonical_frame rt (FArray es) = canonical rt (JArray es)"
| "canonical_frame rt (FObject ms k) = canonical rt (JObject ms)"

fun canonical_mode :: "'n numbers \<Rightarrow> 'n mode \<Rightarrow> bool" where
  "canonical_mode rt (MKey ms) = canonical rt (JObject ms)"
| "canonical_mode rt (MColon ms k) = canonical rt (JObject ms)"
| "canonical_mode rt (MNextElem es) = canonical rt (JArray es)"
| "canonical_mode rt (MNextMember ms) = canonical rt (JObject ms)"
| "canonical_mode rt (MDone v) = canonical rt v"
| "canonical_mode rt _ = True"

definition canonical_config :: "'n numbers \<Rightarrow> 'n mode \<times> 'n frame list \<Rightarrow> bool" where
  "canonical_config rt c \<longleftrightarrow> canonical_mode rt (fst c) \<and> (\<forall>f \<in> set (snd c). canonical_frame rt f)"


section \<open>Evaluation of the sample inputs\<close>

lemmas session_defs = resolveCustomTextEditor_def postMessage_def sample_document_def
  visible_session_def hidden_session_def plain_event_def undo_event_def

lemmas message_defs = onDidReceiveMessage_def updateFromWebview_def noValidJson_def
  setChangesToDocument_def getContentAsJson_def applyEdit_def dispose_def setStatusBarMessage_def

lemma parse_b2:
  "JSON_parse verbatim_numbers (str ''{\"b\":2}'') =
     Some (JObject [(str ''b'', JNumber (str ''2''))])"
  by code_simp

lemma stringify_b2:
  "JSON_stringify4 verbatim_numbers (JObject [(str ''b'', JNumber (str ''2''))])
     = str ''{\<newline>    \"b\": 2\<newline>}''"
  by code_simp

lemma trim_b2: "trim (str ''{\"b\":2}'') = str ''{\"b\":2}''"
  by code_simp

lemma parse_invalid: "JSON_parse rt (str ''{invalid'') = None"
  by (simp add: JSON_parse_def str_def isJsonWs_def isDigit_def)

lemma trim_invalid: "trim (str ''{invalid'') = str ''{invalid''"
  by (simp add: trim_def str_def isWhiteSpace_def)

lemma stringify_string_braces: "JSON_stringify4 rt (JString (str ''{}'')) = str ''\"{}\"''"
  by (simp add: JSON_stringify4_def QuoteJSONString_def str_def quoteUnit_def
      isLeadingSurrogate_def isTrailingSurrogate_def)

section \<open>Echo suppression\<close>

lemma onDidReceiveMessage_update_facts:
  "let s1 = state_of (onDidReceiveMessage rt (updateFromWebview c) s)
   in isUpdateFromWebview s1 \<and> posted s1 = posted s \<and> visible s1 = visible s
      \<and> uri (document s1) = uri (document s) \<and> isBuffer s1 = isBuffer s"
  by (simp add: message_defs Let_def split: option.splits)

text \<open>
  While the panel is visible, a submission of the webview followed by a plain change
  event on the session's document posts no message, and the change event clears the flag
  that the submission has set.
\<close>

lemma echo_suppressed_when_visible:
  assumes "visible s" and "ev_uri e = uri (document s)" and "contentChanges e \<noteq> []"
    and "reason e = None"
  shows "let s1 = state_of (onDidReceiveMessage rt (updateFromWebview c) s);
             s2 = onDidChangeTextDocument e s1
         in isUpdateFromWebview s1 \<and> posted s1 = posted s \<and> posted s2 = posted s
            \<and> \<not> isUpdateFromWebview s2 \<and> isBuffer s2 = isBuffer s"
  using assms onDidReceiveMessage_update_facts [of rt c s]
  by (auto simp add: Let_def onDidChangeTextDocument_def)

lemma submission_text:
  "trim c \<noteq> [] \<Longrightarrow> JSON_parse rt c = Some v \<Longrightarrow>
     getText (document (state_of (onDidReceiveMessage rt (updateFromWebview c) s)))
       = JSON_stringify4 rt v"
  by (simp add: message_defs split: option.splits)

lemma plain_event_when_hidden:
  "\<not> visible s \<Longrightarrow> ev_uri e = uri (document s) \<Longrightarrow> contentChanges e \<noteq> [] \<Longrightarrow>
     onDidChangeTextDocument e s = s\<lparr>isBuffer := True\<rparr>"
  by (simp add: onDidChangeTextDocument_def)

lemma flush_when_shown:
  "isBuffer s \<Longrightarrow>
     posted (viewStateChanged True s) =
       posted s @ [\<lparr>msg_type = ''vuejsoneditor.updateFromExtension'',
                    msg_text = getText (document s)\<rparr>]
     \<and> visible (viewStateChanged True s)
     \<and> isUpdateFromWebview (viewStateChanged True s) = isUpdateFromWebview s"
  by (simp add: viewStateChanged_def onDidChangeViewState_def postMessage_def)

lemma plain_edit_swallowed:
  "visible s \<Longrightarrow> isUpdateFromWebview s \<Longrightarrow> posted (documentEdited t None s) = posted s"
  by (simp add: documentEdited_def onDidChangeTextDocument_def)

text \<open>
  C1, in a session whose panel is hidden, at the submission \<open>{"b":2}\<close> and the plain
  change event that results from it (the state \<open>hidden_echo\<close>): the guard for the hidden
  panel returns before the flag is cleared, so the flag is still set and the change is
  buffered. When the panel becomes visible, the buffered update sends the webview its own
  text back, and the flag is still set; the next plain edit of the document by another
  editor, to \<open>[1]\<close>, then posts nothing to the visible webview.
\<close>

theorem hidden_submission_keeps_flag:
  "isUpdateFromWebview hidden_echo \<and> isBuffer hidden_echo
   \<and> posted hidden_echo = posted hidden_session
   \<and> posted (viewStateChanged True hidden_echo) =
       posted hidden_session @
         [\<lparr>msg_type = ''vuejsoneditor.updateFromExtension'',
           msg_text = str ''{\<newline>    \"b\": 2\<newline>}''\<rparr>]
   \<and> isUpdateFromWebview (viewStateChanged True hidden_echo)
   \<and> visible (viewStateChanged True hidden_echo)
   \<and> posted (documentEdited (str ''[1]'') None (viewStateChanged True hidden_echo)) =
       posted (viewStateChanged True hidden_echo)"
proof -
  let ?s1 = "state_of (onDidReceiveMessage verbatim_numbers
               (updateFromWebview (str ''{\"b\":2}'')) hidden_session)"
  have hid: "\<not> visible hidden_session" and u: "uri (document hidden_session) = ev_uri plain_event"
    and c: "contentChanges plain_event \<noteq> []"
    by (simp_all add: session_defs)
  from onDidReceiveMessage_update_facts [of verbatim_numbers "str ''{\"b\":2}''" hidden_session]
  have s1: "isUpdateFromWebview ?s1" "posted ?s1 = posted hidden_session"
    "visible ?s1 = visible hidden_session" "uri (document ?s1) = uri (document hidden_session)"
    by (simp_all add: Let_def)
  have t: "getText (document ?s1) = str ''{\<newline>    \"b\": 2\<newline>}''"
  proof -
    have "trim (str ''{\"b\":2}'') \<noteq> []"
      by (simp add: trim_b2) (simp add: str_def)
    from submission_text [OF this parse_b2] show ?thesis
      by (simp only: stringify_b2)
  qed
  have e: "hidden_echo = ?s1\<lparr>isBuffer := True\<rparr>"
    unfolding hidden_echo_def
    using s1 hid u c by (intro plain_event_when_hidden) simp_all
  have a: "isUpdateFromWebview hidden_echo" "isBuffer hidden_echo"
    "posted hidden_echo = posted hidden_session"
    "getText (document hidden_echo) = str ''{\<newline>    \"b\": 2\<newline>}''"
    using s1 t by (simp_all add: e)
  from flush_when_shown [OF a(2)] a
  have f: "posted (viewStateChanged True hidden_echo) =
       posted hidden_session @
         [\<lparr>msg_type = ''vuejsoneditor.updateFromExtension'',
           msg_text = str ''{\<newline>    \"b\": 2\<newline>}''\<rparr>]"
    "visible (viewStateChanged True hidden_echo)"
    "isUpdateFromWebview (viewStateChanged True hidden_echo)"
    by simp_all
  from plain_edit_swallowed [OF f(2) f(3)] a f show ?thesis
    by blast
qed

section \<open>Undo and redo\<close>

text \<open>
  C2 (as amended). A change event on the session's document with reason 1 (undo) or 2
  (redo) does one of two things, whatever \<open>isUpdateFromWebview\<close> is. While the panel is
  visible, it posts exactly one message, of type \<open>vuejsoneditor.undo\<close> or
  \<open>vuejsoneditor.redo\<close>, with the document's current text, and nothing else of the
  state changes. While the panel is hidden, it posts nothing and only sets \<open>isBuffer\<close>.
\<close>

theorem undo_redo_forwarded_or_buffered:
  assumes "ev_uri e = uri (document s)" and "contentChanges e \<noteq> []"
    and "reason e = Some 1 \<or> reason e = Some 2"
  shows "onDidChangeTextDocument e s =
           (if visible s then
              s\<lparr>posted := posted s @
                   [\<lparr>msg_type = (if reason e = Some 1 then ''vuejsoneditor.undo''
                                  else ''vuejsoneditor.redo''),
                     msg_text = getText (document s)\<rparr>]\<rparr>
            else s\<lparr>isBuffer := True\<rparr>)"
  using assms by (auto simp add: onDidChangeTextDocument_def updateWebview_def postMessage_def)

theorem undo_redo_forwarded_or_buffered_witness:
  "ev_uri undo_event = uri (document visible_session)
   \<and> ev_uri undo_event = uri (document hidden_session)
   \<and> contentChanges undo_event \<noteq> [] \<and> (reason undo_event = Some 1 \<or> reason undo_event = Some 2)
   \<and> visible visible_session
   \<and> posted (onDidChangeTextDocument undo_event visible_session) =
       posted visible_session @
         [\<lparr>msg_type = ''vuejsoneditor.undo'', msg_text = str ''{\"a\":1}''\<rparr>]
   \<and> \<not> visible hidden_session
   \<and> onDidChangeTextDocument undo_event hidden_session = hidden_session\<lparr>isBuffer := True\<rparr>"
proof -
  have h: "ev_uri undo_event = uri (document visible_session)"
    "contentChanges undo_event \<noteq> []" "reason undo_event = Some 1 \<or> reason undo_event = Some 2"
    by (simp_all add: session_defs)
  have h': "ev_uri undo_event = uri (document hidden_session)"
    by (simp add: session_defs)
  have v: "visible visible_session" "\<not> visible hidden_session"
    by (simp_all add: session_defs)
  have r: "reason undo_event = Some 1"
    and g: "getText (document visible_session) = str ''{\"a\":1}''"
    by (simp_all add: session_defs)
  have a: "posted (onDidChangeTextDocument undo_event visible_session) =
       posted visible_session @
         [\<lparr>msg_type = ''vuejsoneditor.undo'', msg_text = str ''{\"a\":1}''\<rparr>]"
    using undo_redo_forwarded_or_buffered [OF h] v(1) r g by simp
  have b: "onDidChangeTextDocument undo_event hidden_session = hidden_session\<lparr>isBuffer := True\<rparr>"
    using undo_redo_forwarded_or_buffered [OF h' h(2,3)] v(2) by simp
  from h h' v a b show ?thesis by blast
qed

text \<open>
  C2 as stated fails in a session whose panel is hidden: an undo of the document posts
  nothing and sets \<open>isBuffer\<close>.
\<close>

theorem undo_buffered_when_hidden:
  "posted (onDidChangeTextDocument undo_event hidden_session) = posted hidden_session
   \<and> isBuffer (onDidChangeTextDocument undo_event hidden_session)"
  by (simp add: session_defs onDidChangeTextDocument_def)

section \<open>Buffering while the panel is hidden\<close>

lemma documentEdited_hidden:
  "\<not> visible s \<Longrightarrow>
     documentEdited t r s = s\<lparr>document := (document s)\<lparr>getText := t\<rparr>, isBuffer := True\<rparr>"
  by (simp add: documentEdited_def onDidChangeTextDocument_def)

lemma fold_documentEdited_hidden:
  "\<not> visible s \<Longrightarrow> ts \<noteq> [] \<Longrightarrow>
     fold (\<lambda>t. documentEdited t None) ts s =
       s\<lparr>document := (document s)\<lparr>getText := last ts\<rparr>, isBuffer := True\<rparr>"
proof (induction ts arbitrary: s)
  case Nil
  then show ?case by simp
next
  case (Cons t ts)
  show ?case
  proof (cases "ts = []")
    case True
    with Cons.prems show ?thesis by (simp add: documentEdited_hidden)
  next
    case False
    have "\<not> visible (documentEdited t None s)"
      using Cons.prems by (simp add: documentEdited_hidden)
    from Cons.IH [OF this False] False Cons.prems show ?thesis
      by (simp add: documentEdited_hidden)
  qed
qed

lemma dispatch_keeps_pending_hidden:
  assumes "\<not> (isBuffer s \<and> visible s)"
  shows "\<not> (isBuffer (dispatch rt ev s) \<and> visible (dispatch rt ev s))"
proof (cases ev)
  case (DocumentChanged t e)
  with assms show ?thesis
    by (auto simp add: onDidChangeTextDocument_def updateWebview_def postMessage_def
        split: option.splits)
next
  case (ViewStateChanged v)
  with assms show ?thesis
    by (auto simp add: onDidChangeViewState_def postMessage_def)
next
  case (MessageReceived m)
  with assms show ?thesis
    by (auto simp add: message_defs split: option.splits)
next
  case (ConfigurationChanged b)
  with assms show ?thesis by simp
next
  case (ProviderValidity b)
  with assms show ?thesis by simp
qed

lemma dispatch_all_keeps_pending_hidden:
  "\<not> (isBuffer s \<and> visible s) \<Longrightarrow>
     \<not> (isBuffer (dispatch_all rt es s) \<and> visible (dispatch_all rt es s))"
  unfolding dispatch_all_def
proof (induction es arbitrary: s)
  case Nil
  then show ?case by simp
next
  case (Cons ev es)
  from Cons.IH [OF dispatch_keeps_pending_hidden [OF Cons.prems]] show ?case by simp
qed

text \<open>
  C3. In a session whose panel is hidden, one or more plain edits of the document (to the
  texts \<open>ts\<close>, in this order) post no message and leave \<open>isBuffer\<close> set. When the panel
  becomes visible, exactly one message is posted, of type
  \<open>vuejsoneditor.updateFromExtension\<close>, with the text the document has then (the last
  of \<open>ts\<close>), and \<open>isBuffer\<close> is cleared. In every state that a session reaches from
  \<open>resolveCustomTextEditor\<close>, \<open>isBuffer\<close> is set only while the panel is hidden.
\<close>

theorem pending_update_buffered_and_flushed:
  assumes "\<not> visible s" and "ts \<noteq> []"
  shows "(let s' = fold (\<lambda>t. documentEdited t None) ts s;
              s'' = viewStateChanged True s'
          in posted s' = posted s \<and> isBuffer s'
             \<and> posted s'' = posted s @
                  [\<lparr>msg_type = ''vuejsoneditor.updateFromExtension'', msg_text = last ts\<rparr>]
             \<and> getText (document s'') = last ts \<and> \<not> isBuffer s'')
         \<and> \<not> (isBuffer (dispatch_all rt es (resolveCustomTextEditor doc v cfg eds valid))
              \<and> visible (dispatch_all rt es (resolveCustomTextEditor doc v cfg eds valid)))"
proof -
  have "\<not> (isBuffer (resolveCustomTextEditor doc v cfg eds valid)
          \<and> visible (resolveCustomTextEditor doc v cfg eds valid))"
    by (simp add: resolveCustomTextEditor_def postMessage_def Let_def)
  from dispatch_all_keeps_pending_hidden [OF this]
  have inv: "\<not> (isBuffer (dispatch_all rt es (resolveCustomTextEditor doc v cfg eds valid))
              \<and> visible (dispatch_all rt es (resolveCustomTextEditor doc v cfg eds valid)))" .
  show ?thesis
    using inv fold_documentEdited_hidden [OF assms]
    by (simp add: Let_def viewStateChanged_def onDidChangeViewState_def postMessage_def)
qed

theorem pending_update_buffered_and_flushed_witness:
  "\<not> visible hidden_session \<and> [str ''[]'', str ''{}''] \<noteq> []
   \<and> posted (fold (\<lambda>t. documentEdited t None) [str ''[]'', str ''{}''] hidden_session)
       = posted hidden_session
   \<and> isBuffer (fold (\<lambda>t. documentEdited t None) [str ''[]'', str ''{}''] hidden_session)
   \<and> posted (viewStateChanged True
        (fold (\<lambda>t. documentEdited t None) [str ''[]'', str ''{}''] hidden_session))
       = [\<lparr>msg_type = ''vuejsoneditor.updateFromExtension'', msg_text = str ''{\"a\":1}''\<rparr>,
          \<lparr>msg_type = ''vuejsoneditor.updateFromExtension'', msg_text = str ''{}''\<rparr>]
   \<and> isBuffer (dispatch_all verbatim_numbers [DocumentChanged (str ''[]'') plain_event]
        hidden_session)
   \<and> \<not> visible (dispatch_all verbatim_numbers [DocumentChanged (str ''[]'') plain_event]
        hidden_session)"
proof -
  have h: "\<not> visible hidden_session" "[str ''[]'', str ''{}''] \<noteq> []"
    by (simp_all add: session_defs)
  have p: "posted hidden_session =
      [\<lparr>msg_type = ''vuejsoneditor.updateFromExtension'', msg_text = str ''{\"a\":1}''\<rparr>]"
    by (simp add: session_defs)
  have b: "isBuffer (dispatch_all verbatim_numbers [DocumentChanged (str ''[]'') plain_event]
        hidden_session)"
    by (simp add: dispatch_all_def session_defs onDidChangeTextDocument_def)
  show ?thesis
    using pending_update_buffered_and_flushed [OF h, of verbatim_numbers
        "[DocumentChanged (str ''[]'') plain_event]" sample_document False False "[]" True]
      h p b
    by (simp add: Let_def hidden_session_def)
qed

section \<open>The initial message\<close>

text \<open>
  C9 (as amended). On opening a document, the session's initial message to the webview
  is of type \<open>vuejsoneditor.updateFromExtension\<close> and its text is the document's text
  as it is: for the text \<open>{"a":1}\<close> the payload is \<open>{"a":1}\<close>.
\<close>

theorem initial_message_is_document_text:
  "posted (resolveCustomTextEditor doc v cfg eds valid) =
     [\<lparr>msg_type = ''vuejsoneditor.updateFromExtension'', msg_text = getText doc\<rparr>]"
  by (simp add: resolveCustomTextEditor_def postMessage_def Let_def)

text \<open>
  C9 as stated fails: for the document \<open>{"a":1}\<close> the payload of the initial message is
  not the pretty-printed text.
\<close>

theorem initial_message_not_pretty_printed:
  "posted visible_session =
     [\<lparr>msg_type = ''vuejsoneditor.updateFromExtension'', msg_text = str ''{\"a\":1}''\<rparr>]
   \<and> str ''{\"a\":1}'' \<noteq> str ''{\<newline>    \"a\": 1\<newline>}''"
  by (simp add: session_defs str_def)

section \<open>Visible text editors of the session's file\<close>





section \<open>Errors of the message handler\<close>

text \<open>
  C8 (as amended). In a session whose validity flag is true or whose notice handle is
  assigned, the handler of webview messages returns normally for every message except a
  submission (\<open>vuejsoneditor.updateFromWebview\<close>) whose content is neither blank nor
  valid JSON; for that one the error thrown by \<open>getContentAsJson\<close> leaves the handler,
  and the document is as it was.
\<close>

theorem view_message_error:
  assumes "isValidJson s \<or> jsonErrorMsg s \<noteq> None"
  shows "if e_type m = ''vuejsoneditor.updateFromWebview'' \<and> trim (e_content m) \<noteq> []
            \<and> JSON_parse rt (e_content m) = None
         then raised (onDidReceiveMessage rt m s) =
                Some (Error ''Could not get document as json. Content is not valid json'')
              \<and> document (state_of (onDidReceiveMessage rt m s)) = document s
         else raised (onDidReceiveMessage rt m s) = None"
  using assms
  by (auto simp add: message_defs split: option.splits prod.splits)

theorem view_message_error_witness:
  "(isValidJson visible_session \<or> jsonErrorMsg visible_session \<noteq> None)
   \<and> raised (onDidReceiveMessage verbatim_numbers (updateFromWebview (str ''{\"b\":2}''))
        visible_session) = None
   \<and> raised (onDidReceiveMessage verbatim_numbers (updateFromWebview (str ''{invalid''))
        visible_session) =
       Some (Error ''Could not get document as json. Content is not valid json'')
   \<and> document (state_of (onDidReceiveMessage verbatim_numbers
        (updateFromWebview (str ''{invalid'')) visible_session)) = document visible_session"
proof -
  have h: "isValidJson visible_session \<or> jsonErrorMsg visible_session \<noteq> None"
    by (simp add: session_defs)
  have n: "trim (str ''{invalid'') \<noteq> []"
    by (simp add: trim_invalid) (simp add: str_def)
  have t: "e_type (updateFromWebview c) = ''vuejsoneditor.updateFromWebview''"
    "e_content (updateFromWebview c) = c" for c
    by (simp_all add: updateFromWebview_def)
  have good: "raised (onDidReceiveMessage verbatim_numbers (updateFromWebview (str ''{\"b\":2}''))
        visible_session) = None"
    using view_message_error [OF h, of "updateFromWebview (str ''{\"b\":2}'')" verbatim_numbers]
    by (simp add: t parse_b2)
  have bad: "raised (onDidReceiveMessage verbatim_numbers (updateFromWebview (str ''{invalid''))
        visible_session) =
       Some (Error ''Could not get document as json. Content is not valid json'')
     \<and> document (state_of (onDidReceiveMessage verbatim_numbers
        (updateFromWebview (str ''{invalid'')) visible_session)) = document visible_session"
    using view_message_error [OF h, of "updateFromWebview (str ''{invalid'')" verbatim_numbers] n
    by (simp add: t parse_invalid)
  from h good bad show ?thesis by blast
qed

text \<open>
  C8 as stated fails: a submission with the content \<open>{invalid\<close> ends the handler with
  an error.
\<close>

theorem invalid_submission_throws:
  "raised (onDidReceiveMessage verbatim_numbers (updateFromWebview (str ''{invalid''))
      visible_session) =
     Some (Error ''Could not get document as json. Content is not valid json'')"
  by (simp add: message_defs parse_invalid trim_invalid)
     (simp add: str_def)

section \<open>The notice handle\<close>

text \<open>
  C10. In a session in which \<open>jsonErrorMsg\<close> has never been assigned (no
  \<open>vuejsoneditor.noValidJson\<close> message has created a notice), a submission with invalid
  content sets the validity flag to false, creates no notice and leaves the handle
  unassigned; the next submission with blank or valid content then calls \<open>dispose\<close> on the
  unassigned handle, which is a TypeError, and the flag stays false.
\<close>

theorem dispose_on_unassigned_handle:
  assumes "jsonErrorMsg s = None"
    and "trim bad \<noteq> []" and "JSON_parse rt bad = None"
    and "trim good = [] \<or> JSON_parse rt good \<noteq> None"
  shows "let r1 = onDidReceiveMessage rt (updateFromWebview bad) s;
             r2 = onDidReceiveMessage rt (updateFromWebview good) (state_of r1)
         in raised r1 = Some (Error ''Could not get document as json. Content is not valid json'')
            \<and> \<not> isValidJson (state_of r1) \<and> jsonErrorMsg (state_of r1) = None
            \<and> statusBar (state_of r1) = statusBar s
            \<and> raised r2 = Some (TypeError ''Cannot read properties of undefined (reading dispose)'')
            \<and> \<not> isValidJson (state_of r2)"
  using assms
  by (auto simp add: message_defs Let_def split: option.splits)

theorem dispose_on_unassigned_handle_witness:
  "jsonErrorMsg visible_session = None \<and> trim (str ''{invalid'') \<noteq> []
   \<and> JSON_parse verbatim_numbers (str ''{invalid'') = None
   \<and> (trim (str ''{\"b\":2}'') = [] \<or> JSON_parse verbatim_numbers (str ''{\"b\":2}'') \<noteq> None)
   \<and> raised (onDidReceiveMessage verbatim_numbers (updateFromWebview (str ''{\"b\":2}''))
        (state_of (onDidReceiveMessage verbatim_numbers (updateFromWebview (str ''{invalid''))
           visible_session)))
       = Some (TypeError ''Cannot read properties of undefined (reading dispose)'')"
proof -
  have h: "jsonErrorMsg visible_session = None" "trim (str ''{invalid'') \<noteq> []"
    "JSON_parse verbatim_numbers (str ''{invalid'') = None"
    "trim (str ''{\"b\":2}'') = [] \<or> JSON_parse verbatim_numbers (str ''{\"b\":2}'') \<noteq> None"
    by (simp_all add: session_defs parse_invalid trim_invalid parse_b2) (simp add: str_def)
  show ?thesis
    using dispose_on_unassigned_handle [OF h] h
    by (simp add: Let_def)
qed

section \<open>Invalid and blank submissions\<close>

lemma invalid_submission_document_unchanged:
  "trim c \<noteq> [] \<Longrightarrow> JSON_parse rt c = None \<Longrightarrow>
     document (state_of (onDidReceiveMessage rt (updateFromWebview c) s)) = document s"
  by (simp add: message_defs)

text \<open>
  C4, at the submission \<open>{invalid\<close> in a session that has just been opened: the handler
  throws and the document is unchanged, but no notice is on the status bar and the notice
  handle is unassigned, although the validity flag is now false.
\<close>

theorem invalid_submission_leaves_no_notice:
  "let r = onDidReceiveMessage rt (updateFromWebview (str ''{invalid''))
             (resolveCustomTextEditor doc v cfg eds True)
   in raised r = Some (Error ''Could not get document as json. Content is not valid json'')
      \<and> document (state_of r) = doc \<and> statusBar (state_of r) = []
      \<and> jsonErrorMsg (state_of r) = None \<and> \<not> isValidJson (state_of r)"
  by (simp add: message_defs parse_invalid trim_invalid resolveCustomTextEditor_def
      postMessage_def Let_def)
     (simp add: str_def)

lemma blank_content_text:
  "trim c = [] \<Longrightarrow>
     getText (document (state_of (setChangesToDocument rt c s))) = str ''\"{}\"''"
  by (simp add: setChangesToDocument_def getContentAsJson_def applyEdit_def
      stringify_string_braces)

text \<open>
  C5, at the empty content and at the content of three spaces: the text written to the
  document is the four characters \<open>"{}"\<close>, a JSON string literal, and not the two
  characters \<open>{}\<close>, because \<open>getContentAsJson\<close> returns the string \<open>'{}'\<close> and
  \<open>JSON.stringify\<close> quotes it.
\<close>

theorem blank_content_commits_a_string_literal:
  "getText (document (state_of (setChangesToDocument rt (str '''') s))) = [0x22, 0x7B, 0x7D, 0x22]
   \<and> getText (document (state_of (setChangesToDocument rt (str ''   '') s)))
       = [0x22, 0x7B, 0x7D, 0x22]
   \<and> str ''{}'' = [0x7B, 0x7D]"
proof -
  have "trim (str '''') = []" and "trim (str ''   '') = []"
    by (simp_all add: trim_def isWhiteSpace_def str_def)
  then show ?thesis
    by (simp add: blank_content_text) (simp add: str_def)
qed

section \<open>Number literals\<close>

lemma takeWhile_append_stop:
  "rest = [] \<or> \<not> P (hd rest) \<Longrightarrow> takeWhile P (r @ rest) = takeWhile P r"
  by (induction r) (auto simp: takeWhile_eq_Nil_iff neq_Nil_conv)

lemma dropWhile_append_stop:
  "rest = [] \<or> \<not> P (hd rest) \<Longrightarrow> dropWhile P (r @ rest) = dropWhile P r @ rest"
  by (induction r) (auto simp: dropWhile_eq_self_iff neq_Nil_conv)

lemma stops_not_digit: "stops rest \<Longrightarrow> rest = [] \<or> \<not> isDigit (hd rest)"
  by (auto simp: stops_def isDigit_def)

lemma takeWhile_digits_stop: "stops rest \<Longrightarrow> takeWhile isDigit (r @ rest) = takeWhile isDigit r"
  by (rule takeWhile_append_stop) (rule stops_not_digit)

lemma dropWhile_digits_stop:
  "stops rest \<Longrightarrow> dropWhile isDigit (r @ rest) = dropWhile isDigit r @ rest"
  by (rule dropWhile_append_stop) (rule stops_not_digit)

lemma lex_digits_append:
  "lex_digits cs = Some (d, r) \<Longrightarrow> stops rest \<Longrightarrow> lex_digits (cs @ rest) = Some (d, r @ rest)"
  by (auto simp: lex_digits_def takeWhile_digits_stop dropWhile_digits_stop split: if_splits)

lemma lex_int_append:
  "lex_int cs = Some (i, r) \<Longrightarrow> stops rest \<Longrightarrow> lex_int (cs @ rest) = Some (i, r @ rest)"
  by (auto simp: lex_int_def takeWhile_digits_stop dropWhile_digits_stop
      split: list.splits if_splits)

lemma lex_frac_append:
  assumes "lex_frac cs = Some (f, r)" and "stops rest"
  shows "lex_frac (cs @ rest) = Some (f, r @ rest)"
proof (cases cs)
  case Nil
  with assms show ?thesis
    by (cases rest) (auto simp: lex_frac_def stops_def)
next
  case (Cons c cs')
  with assms show ?thesis
    by (auto simp: lex_frac_def lex_digits_append split: if_splits)
qed

lemma lex_exp_append:
  assumes "lex_exp cs = Some (e, r)" and "stops rest"
  shows "lex_exp (cs @ rest) = Some (e, r @ rest)"
proof (cases cs)
  case Nil
  with assms show ?thesis
    by (cases rest) (auto simp: lex_exp_def stops_def)
next
  case (Cons c cs')
  show ?thesis
  proof (cases "c = 0x65 \<or> c = 0x45")
    case False
    with Cons assms show ?thesis
      by (auto simp: lex_exp_def)
  next
    case True
    with Cons assms obtain g r' where cs': "cs' = g # r'"
      by (cases cs') (auto simp: lex_exp_def)
    with True Cons assms show ?thesis
      by (auto simp: lex_exp_def split: if_splits dest: lex_digits_append)
  qed
qed

lemma lex_unsigned_append:
  assumes "lex_unsigned cs = Some (n, r)" and "stops rest"
  shows "lex_unsigned (cs @ rest) = Some (n, r @ rest)"
  using assms
  by (auto simp: lex_unsigned_def lex_int_append lex_frac_append lex_exp_append
      split: option.splits)

lemma lex_number_append:
  assumes "lex_number cs = Some (n, r)" and "stops rest"
  shows "lex_number (cs @ rest) = Some (n, r @ rest)"
proof (cases cs)
  case Nil
  with assms show ?thesis by (simp add: lex_number_def)
next
  case (Cons c cs')
  with assms lex_unsigned_append [of "c # cs'" n r rest] show ?thesis
    by (auto simp: lex_number_def lex_unsigned_append split: if_splits)
qed

section \<open>Strings\<close>

lemma word16_div16_div16: "(c :: 16 word) div 16 div 16 = c div 256"
  by (simp add: word_unat_eq_iff unat_div div_mult2_eq)

lemma word16_div256_div16: "(c :: 16 word) div 256 div 16 = c div 4096"
  by (simp add: word_unat_eq_iff unat_div div_mult2_eq)

lemma word16_top_digit: "(c :: 16 word) div 4096 mod 16 = c div 4096"
proof -
  have "unat c < 65536"
    using unsigned_less [of c, where ?'a = nat] by simp
  then have "unat c div 4096 < 16" by simp
  then show ?thesis
    by (simp add: word_unat_eq_iff unat_div unat_mod)
qed

lemma word16_hex_digits:
  "((c div 4096 mod 16 * 16 + c div 256 mod 16) * 16 + c div 16 mod 16) * 16 + c mod 16
     = (c :: 16 word)"
proof -
  have a: "c div 16 * 16 + c mod 16 = c"
    by (rule div_mult_mod_eq)
  have b: "c div 256 * 16 + c div 16 mod 16 = c div 16"
    using div_mult_mod_eq [of "c div 16" 16] by (simp add: word16_div16_div16)
  have d: "c div 4096 * 16 + c div 256 mod 16 = c div 256"
    using div_mult_mod_eq [of "c div 256" 16] by (simp add: word16_div256_div16)
  show ?thesis
    by (simp only: word16_top_digit d b a)
qed

lemma word16_mod16_less: "(c :: 16 word) mod 16 < 16"
  by (simp add: word_less_nat_alt unat_mod)

lemma hexval_hexdigit: 
  assumes "n < 16" shows "hexval (hexdigit n) = Some n"
proof -
  have m: "unat n < 16" using assms by (simp add: word_less_nat_alt)
  show ?thesis
  proof (cases "n < 10")
    case True
    then have "unat n < 10" by (simp add: word_less_nat_alt)
    then have "unat (0x30 + n) = 48 + unat n"
      by (simp add: unat_word_ariths)
    with \<open>unat n < 10\<close> have "0x30 \<le> 0x30 + n" "0x30 + n \<le> 0x39"
      by (simp_all add: word_le_nat_alt)
    with True show ?thesis
      by (simp add: hexval_def hexdigit_def)
  next
    case False
    then have ge: "10 \<le> unat n" by (simp add: word_less_nat_alt not_less)
    then have s: "unat (n - 10) = unat n - 10"
      by (simp add: unat_sub word_le_nat_alt)
    with m ge have u: "unat (0x61 + (n - 10)) = 97 + (unat n - 10)"
      by (simp add: unat_word_ariths)
    with m ge have r: "0x61 \<le> 0x61 + (n - 10)" "0x61 + (n - 10) \<le> 0x66"
      "\<not> (0x61 + (n - 10) \<le> 0x39)" "\<not> (0x61 + (n - 10) \<le> 0x46)"
      by (simp_all add: word_le_nat_alt)
    with False show ?thesis
      by (simp add: hexval_def hexdigit_def)
  qed
qed

lemma hex4_UnicodeEscape:
  "hex4 (hexdigit (c div 4096 mod 16)) (hexdigit (c div 256 mod 16))
        (hexdigit (c div 16 mod 16)) (hexdigit (c mod 16)) = Some c"
  unfolding hex4_def
  by (simp only: hexval_hexdigit word16_mod16_less prod.case option.case word16_hex_digits)

lemma lex_string_escape:
  "unescape e = Some u \<Longrightarrow> e \<noteq> 0x75 \<Longrightarrow>
     lex_string (0x5C # e # xs) = map_option (\<lambda>(s, r). (u # s, r)) (lex_string xs)"
  by simp

lemma lex_string_raw:
  "c \<noteq> 0x22 \<Longrightarrow> c \<noteq> 0x5C \<Longrightarrow> \<not> c < 0x20 \<Longrightarrow>
     lex_string (c # xs) = map_option (\<lambda>(s, r). (c # s, r)) (lex_string xs)"
  by simp

lemma lex_string_UnicodeEscape:
  "lex_string (UnicodeEscape c @ xs) = map_option (\<lambda>(s, r). (c # s, r)) (lex_string xs)"
  by (simp add: UnicodeEscape_def hex4_UnicodeEscape)

lemma surrogate_is_raw:
  "isLeadingSurrogate c \<or> isTrailingSurrogate c \<Longrightarrow> c \<noteq> 0x22 \<and> c \<noteq> 0x5C \<and> \<not> c < 0x20"
  by (auto simp: isLeadingSurrogate_def isTrailingSurrogate_def word_le_nat_alt word_less_nat_alt)

lemma lex_string_quoteUnit:
  "lex_string (quoteUnit c @ xs) = map_option (\<lambda>(s, r). (c # s, r)) (lex_string xs)"
proof -
  consider (short) "c = 0x8 \<or> c = 0x9 \<or> c = 0xA \<or> c = 0xC \<or> c = 0xD \<or> c = 0x22 \<or> c = 0x5C"
    | (esc) "\<not> (c = 0x8 \<or> c = 0x9 \<or> c = 0xA \<or> c = 0xC \<or> c = 0xD \<or> c = 0x22 \<or> c = 0x5C)"
        "c < 0x20 \<or> isLeadingSurrogate c \<or> isTrailingSurrogate c"
    | (raw) "\<not> (c = 0x8 \<or> c = 0x9 \<or> c = 0xA \<or> c = 0xC \<or> c = 0xD \<or> c = 0x22 \<or> c = 0x5C)"
        "\<not> (c < 0x20 \<or> isLeadingSurrogate c \<or> isTrailingSurrogate c)"
    by blast
  then show ?thesis
  proof cases
    case short
    then show ?thesis
      by (auto simp: quoteUnit_def unescape_def)
  next
    case esc
    then have "quoteUnit c = UnicodeEscape c"
      by (simp add: quoteUnit_def)
    then show ?thesis
      by (simp only: lex_string_UnicodeEscape)
  next
    case raw
    then have "quoteUnit c = [c]"
      by (simp add: quoteUnit_def)
    with raw show ?thesis
      by simp
  qed
qed

lemma lex_string_quoteUnits:
  "lex_string (quoteUnits s @ 0x22 # rest) = Some (s, rest)"
proof (induction s rule: quoteUnits.induct)
  case 1
  show ?case by simp
next
  case (2 c)
  show ?case
    using lex_string_quoteUnit [of c "0x22 # rest"] by simp
next
  case (3 c d cs)
  show ?case
  proof (cases "isLeadingSurrogate c \<and> isTrailingSurrogate d")
    case True
    with surrogate_is_raw [of c] surrogate_is_raw [of d] "3.IH"(1) show ?thesis
      by simp
  next
    case False
    then have q: "quoteUnits (c # d # cs) = quoteUnit c @ quoteUnits (d # cs)"
      by auto
    have "lex_string (quoteUnits (c # d # cs) @ 0x22 # rest)
            = lex_string (quoteUnit c @ (quoteUnits (d # cs) @ 0x22 # rest))"
      by (simp only: q append_assoc)
    also have "\<dots> = map_option (\<lambda>(s, r). (c # s, r))
                      (lex_string (quoteUnits (d # cs) @ 0x22 # rest))"
      by (rule lex_string_quoteUnit)
    also have "\<dots> = Some (c # d # cs, rest)"
      using "3.IH"(2) False by (simp del: lex_string.simps quoteUnits.simps)
    finally show ?thesis .
  qed
qed

lemma lex_QuoteJSONString:
  "tokenize (QuoteJSONString s @ rest) = map_option ((#) (TString s)) (tokenize rest)"
  by (simp add: QuoteJSONString_def lex_string_quoteUnits isJsonWs_def)

section \<open>Tokens of a printed value\<close>

lemma lex_ws: "\<forall>c \<in> set w. isJsonWs c \<Longrightarrow> tokenize (w @ x) = tokenize x"
  by (induction w) simp_all

lemma lex_spaces: "set w \<subseteq> {0x20} \<Longrightarrow> tokenize (w @ x) = tokenize x"
  by (rule lex_ws) (auto simp: isJsonWs_def)

lemma map_option_cons_append:
  "map_option ((#) t) (map_option ((@) ts) x) = map_option ((@) (t # ts)) x"
  by (cases x) simp_all

lemma map_option_append_append:
  "map_option ((@) ts) (map_option ((@) us) x) = map_option ((@) (ts @ us)) x"
  by (cases x) simp_all

lemma lex_comma: "tokenize (0x2C # x) = map_option ((#) Comma) (tokenize x)"
  by (simp add: isJsonWs_def)

lemma lex_newline: "tokenize (0xA # x) = tokenize x"
  by (simp add: isJsonWs_def)

lemma lex_join:
  assumes each: "\<And>x r. x \<in> set xs \<Longrightarrow> stops r \<Longrightarrow> tokenize (f x @ r) = map_option ((@) (g x)) (tokenize r)"
    and ind: "set ind \<subseteq> {0x20}" and tail: "stops tail" and ne: "xs \<noteq> []"
  shows "tokenize (join (0x2C # 0xA # ind) (map f xs) @ tail)
           = map_option ((@) (join [Comma] (map g xs))) (tokenize tail)"
  using each ne
proof (induction xs)
  case Nil
  then show ?case by simp
next
  case (Cons x xs)
  show ?case
  proof (cases xs)
    case Nil
    with Cons.prems(1) [of x tail] tail show ?thesis by simp
  next
    case (Cons y ys)
    have st: "stops ((0x2C # 0xA # ind) @ join (0x2C # 0xA # ind) (map f xs) @ tail)"
      by (simp add: stops_def)
    have IH: "tokenize (join (0x2C # 0xA # ind) (map f xs) @ tail)
               = map_option ((@) (join [Comma] (map g xs))) (tokenize tail)"
      using Cons.IH Cons.prems(1) Cons by simp
    have "tokenize (join (0x2C # 0xA # ind) (map f (x # xs)) @ tail)
            = tokenize (f x @ ((0x2C # 0xA # ind) @ join (0x2C # 0xA # ind) (map f xs) @ tail))"
      using Cons by simp
    also have "\<dots> = map_option ((@) (g x))
        (tokenize ((0x2C # 0xA # ind) @ join (0x2C # 0xA # ind) (map f xs) @ tail))"
      using Cons.prems(1) [of x, OF _ st] by simp
    also have "tokenize ((0x2C # 0xA # ind) @ join (0x2C # 0xA # ind) (map f xs) @ tail)
        = map_option ((#) Comma) (tokenize (join (0x2C # 0xA # ind) (map f xs) @ tail))"
      using lex_spaces [OF ind] by (simp only: append_Cons lex_comma lex_newline)
    finally have "tokenize (join (0x2C # 0xA # ind) (map f (x # xs)) @ tail)
        = map_option ((@) (g x)) (map_option ((#) Comma)
            (map_option ((@) (join [Comma] (map g xs))) (tokenize tail)))"
      by (simp only: IH)
    then show ?thesis
      using Cons by (cases "tokenize tail") simp_all
  qed
qed

lemma lex_number_starts:
  "lex_number (c # cs) = Some (n, r) \<Longrightarrow> c = 0x2D \<or> isDigit c"
  by (auto simp: lex_number_def lex_unsigned_def lex_int_def isDigit_def
      split: if_splits option.splits)

lemma tokenize_number:
  assumes "isJsonNumber t" and "stops rest"
  shows "tokenize (t @ rest) = map_option ((#) (TNumber t)) (tokenize rest)"
proof (cases t)
  case Nil
  with assms show ?thesis by (simp add: isJsonNumber_def lex_number_def)
next
  case (Cons c t')
  with assms have n: "lex_number (c # t') = Some (c # t', [])"
    by (simp add: isJsonNumber_def)
  from lex_number_starts [OF n] have c: "c = 0x2D \<or> isDigit c" .
  from lex_number_append [OF n assms(2)]
  have a: "lex_number (c # t' @ rest) = Some (c # t', rest)" by simp
  from c have "\<not> isJsonWs c" "c \<noteq> 0x7B" "c \<noteq> 0x7D" "c \<noteq> 0x5B" "c \<noteq> 0x5D" "c \<noteq> 0x3A"
    "c \<noteq> 0x2C" "c \<noteq> 0x22"
    by (auto simp: isJsonWs_def isDigit_def)
  with c a Cons show ?thesis
    by simp
qed

lemma tokenize_null: "tokenize (str ''null'' @ rest) = map_option ((#) TNull) (tokenize rest)"
  by (simp add: str_def isJsonWs_def isDigit_def)

lemma tokenize_true: "tokenize (str ''true'' @ rest) = map_option ((#) TTrue) (tokenize rest)"
  by (simp add: str_def isJsonWs_def isDigit_def)

lemma tokenize_false: "tokenize (str ''false'' @ rest) = map_option ((#) TFalse) (tokenize rest)"
  by (simp add: str_def isJsonWs_def isDigit_def)

lemma tokenize_colon_space:
  "tokenize (0x3A # 0x20 # x) = map_option ((#) Colon) (tokenize x)"
  by (simp add: isJsonWs_def)

lemma tokenize_open_array:
  "set ind \<subseteq> {0x20} \<Longrightarrow> tokenize (0x5B # 0xA # ind @ x) = map_option ((#) LBracket) (tokenize x)"
  by (simp add: isJsonWs_def lex_spaces)

lemma tokenize_open_object:
  "set ind \<subseteq> {0x20} \<Longrightarrow> tokenize (0x7B # 0xA # ind @ x) = map_option ((#) LBrace) (tokenize x)"
  by (simp add: isJsonWs_def lex_spaces)

lemma tokenize_close_array:
  "set ind \<subseteq> {0x20} \<Longrightarrow> tokenize (0xA # ind @ 0x5D # x) = map_option ((#) RBracket) (tokenize x)"
  by (simp add: isJsonWs_def lex_spaces)

lemma tokenize_close_object:
  "set ind \<subseteq> {0x20} \<Longrightarrow> tokenize (0xA # ind @ 0x7D # x) = map_option ((#) RBrace) (tokenize x)"
  by (simp add: isJsonWs_def lex_spaces)

lemma tokenize_Serialize:
  assumes gap: "set gap \<subseteq> {0x20}"
  shows "canonical rt v \<Longrightarrow> set indent \<subseteq> {0x20} \<Longrightarrow> stops rest \<Longrightarrow>
     tokenize (SerializeJSONProperty rt gap indent v @ rest)
       = map_option ((@) (tokens rt v)) (tokenize rest)"
proof (induction v arbitrary: indent rest)
  case JNull
  show ?case by (cases "tokenize rest") (simp_all add: tokenize_null)
next
  case (JBool b)
  show ?case by (cases "tokenize rest") (simp_all add: tokenize_true tokenize_false)
next
  case (JNumber n)
  show ?case
  proof (cases "NumberToJSON rt n = str ''null''")
    case True
    then show ?thesis by (cases "tokenize rest") (simp_all add: tokenize_null)
  next
    case False
    with JNumber.prems(1) have "isJsonNumber (NumberToJSON rt n)"
      by (simp add: good_number_def)
    from tokenize_number [OF this JNumber.prems(3)] False show ?thesis
      by (cases "tokenize rest") simp_all
  qed
next
  case (JString s)
  show ?case
    by (cases "tokenize rest") (simp_all add: lex_QuoteJSONString)
next
  case (JArray es)
  show ?case
  proof (cases "es = []")
    case True
    then show ?thesis
      by (cases "tokenize rest") (simp_all add: str_def isJsonWs_def)
  next
    case False
    let ?ind = "indent @ gap"
    let ?tail = "0xA # indent @ 0x5D # rest"
    have ind: "set ?ind \<subseteq> {0x20}"
      using gap JArray.prems(2) by simp
    have tail: "stops ?tail" by (simp add: stops_def)
    have each: "\<And>x r. x \<in> set es \<Longrightarrow> stops r \<Longrightarrow>
        tokenize (SerializeJSONProperty rt gap ?ind x @ r) = map_option ((@) (tokens rt x)) (tokenize r)"
      using JArray.IH JArray.prems(1) ind by simp
    have "SerializeJSONProperty rt gap indent (JArray es) @ rest
            = 0x5B # 0xA # ?ind @ (join (0x2C # 0xA # ?ind)
                (map (SerializeJSONProperty rt gap ?ind) es) @ ?tail)"
      using False by simp
    then have "tokenize (SerializeJSONProperty rt gap indent (JArray es) @ rest)
        = map_option ((#) LBracket) (map_option ((@) (join [Comma] (map (tokens rt) es)))
            (map_option ((#) RBracket) (tokenize rest)))"
      by (simp only: tokenize_open_array [OF ind] lex_join [OF each ind tail False]
          tokenize_close_array [OF JArray.prems(2)])
    then show ?thesis
      by (cases "tokenize rest") simp_all
  qed
next
  case (JObject ms)
  show ?case
  proof (cases "ms = []")
    case True
    then show ?thesis
      by (cases "tokenize rest") (simp_all add: str_def isJsonWs_def)
  next
    case False
    let ?ind = "indent @ gap"
    let ?tail = "0xA # indent @ 0x7D # rest"
    let ?f = "\<lambda>m. QuoteJSONString (fst m) @ [0x3A, 0x20]
                @ SerializeJSONProperty rt gap ?ind (snd m)"
    let ?g = "\<lambda>m. TString (fst m) # Colon # tokens rt (snd m)"
    have ind: "set ?ind \<subseteq> {0x20}"
      using gap JObject.prems(2) by simp
    have tail: "stops ?tail" by (simp add: stops_def)
    have each: "tokenize (?f m @ r) = map_option ((@) (?g m)) (tokenize r)"
      if "m \<in> set ms" and "stops r" for m r
    proof -
      have "snd m \<in> Basic_BNFs.snds m" by (cases m) simp
      from JObject.IH [OF that(1) this _ ind that(2)] JObject.prems(1) that(1)
      have "tokenize (SerializeJSONProperty rt gap ?ind (snd m) @ r)
              = map_option ((@) (tokens rt (snd m))) (tokenize r)"
        by simp
      moreover have "?f m @ r = QuoteJSONString (fst m)
          @ (0x3A # 0x20 # (SerializeJSONProperty rt gap ?ind (snd m) @ r))"
        by simp
      ultimately have "tokenize (?f m @ r) = map_option ((#) (TString (fst m)))
          (map_option ((#) Colon) (map_option ((@) (tokens rt (snd m))) (tokenize r)))"
        by (simp only: lex_QuoteJSONString tokenize_colon_space)
      then show ?thesis
        by (cases "tokenize r") simp_all
    qed
    have "SerializeJSONProperty rt gap indent (JObject ms) @ rest
            = 0x7B # 0xA # ?ind @ (join (0x2C # 0xA # ?ind) (map ?f ms) @ ?tail)"
      using False by simp
    then have "tokenize (SerializeJSONProperty rt gap indent (JObject ms) @ rest)
        = map_option ((#) LBrace) (map_option ((@) (join [Comma] (map ?g ms)))
            (map_option ((#) RBrace) (tokenize rest)))"
      by (simp only: tokenize_open_object [OF ind] lex_join [OF each ind tail False]
          tokenize_close_object [OF JObject.prems(2)])
    then show ?thesis
      by (cases "tokenize rest") simp_all
  qed
qed

section \<open>Parsing the tokens of a printed value\<close>

lemma run_MValue: "ts \<noteq> [] \<Longrightarrow> run rt (MValue, st) ts = value_run rt st ts"
  by (cases ts) (simp_all add: value_run_def)

lemma run_MFirstElem:
  "ts \<noteq> [] \<Longrightarrow> hd ts \<noteq> RBracket \<Longrightarrow>
     run rt (MFirstElem, st) ts = value_run rt (FArray [] # st) ts"
  by (cases ts) (simp_all add: value_run_def)

lemma tokens_start: "tokens rt v \<noteq> [] \<and> hd (tokens rt v) \<noteq> RBracket"
  by (cases v) simp_all

lemma join_Cons: "join sep (x # xs) = x @ concat (map ((@) sep) xs)"
  by (induction xs arbitrary: x) simp_all

lemma ordered_keys_last:
  "ordered_keys (k' # ks @ [k]) \<Longrightarrow> isArrayIndex k \<Longrightarrow>
     isArrayIndex k' \<and> indexValue k' \<le> indexValue k"
proof (induction ks arbitrary: k')
  case Nil
  then show ?case by simp
next
  case (Cons a ks)
  from Cons.prems have o: "ordered_keys (a # ks @ [k])"
    and s: "isArrayIndex a \<longrightarrow> isArrayIndex k' \<and> indexValue k' \<le> indexValue a"
    by simp_all
  from Cons.IH [OF o Cons.prems(2)] s show ?case by auto
qed

lemma ordered_keys_tl: "ordered_keys (k # ks) \<Longrightarrow> ordered_keys ks"
  by (cases ks) simp_all

lemma ordered_keys_prefix: "ordered_keys (xs @ ys) \<Longrightarrow> ordered_keys xs"
proof (induction xs rule: ordered_keys.induct)
  case 1
  show ?case by simp
next
  case (2 k)
  show ?case by simp
next
  case (3 k k' ks)
  then show ?case by simp
qed

lemma insertIndex_last:
  "ordered_keys (map fst ms @ [k]) \<Longrightarrow> isArrayIndex k \<Longrightarrow> insertIndex k v ms = ms @ [(k, v)]"
proof (induction ms)
  case Nil
  show ?case by simp
next
  case (Cons m ms)
  from Cons.prems have o: "ordered_keys (fst m # map fst ms @ [k])" by simp
  from ordered_keys_last [OF o Cons.prems(2)]
  have "isArrayIndex (fst m) \<and> indexValue (fst m) \<le> indexValue k" .
  moreover from ordered_keys_tl [OF o] Cons.IH Cons.prems(2)
  have "insertIndex k v ms = ms @ [(k, v)]" by simp
  ultimately show ?case by (cases m) simp
qed

lemma CreateDataProperty_last:
  assumes "distinct (map fst ms @ [k])" and "ordered_keys (map fst ms @ [k])"
  shows "CreateDataProperty k v ms = ms @ [(k, v)]"
  using assms insertIndex_last [of ms k v]
  by (auto simp add: CreateDataProperty_def)

lemma foldl_CreateDataProperty:
  "distinct (map fst acc @ map fst xs) \<Longrightarrow> ordered_keys (map fst acc @ map fst xs) \<Longrightarrow>
     foldl (\<lambda>a m. CreateDataProperty (fst m) (h (snd m)) a) acc xs
       = acc @ map (\<lambda>m. (fst m, h (snd m))) xs"
proof (induction xs arbitrary: acc)
  case Nil
  show ?case by simp
next
  case (Cons x xs)
  have d: "distinct (map fst acc @ [fst x])"
    using Cons.prems(1) by simp
  have "ordered_keys ((map fst acc @ [fst x]) @ map fst xs)"
    using Cons.prems(2) by simp
  then have o: "ordered_keys (map fst acc @ [fst x])"
    by (rule ordered_keys_prefix)
  have c: "CreateDataProperty (fst x) (h (snd x)) acc = acc @ [(fst x, h (snd x))]"
    by (rule CreateDataProperty_last [OF d o])
  have "foldl (\<lambda>a m. CreateDataProperty (fst m) (h (snd m)) a) (acc @ [(fst x, h (snd x))]) xs
          = (acc @ [(fst x, h (snd x))]) @ map (\<lambda>m. (fst m, h (snd m))) xs"
    using Cons.prems by (intro Cons.IH) simp_all
  with c show ?case by simp
qed

lemma join_elements:
  "join [Comma] (map (tokens rt) (x # xs)) = tokens rt x @ more_elements rt xs"
  by (induction xs arbitrary: x) simp_all

lemma join_members:
  "join [Comma] (map (\<lambda>m. TString (fst m) # Colon # tokens rt (snd m)) (m # ms))
     = TString (fst m) # Colon # tokens rt (snd m) @ more_members rt ms"
  by (induction ms arbitrary: m) simp_all

lemma run_elements:
  assumes "\<forall>x \<in> set xs. reads_back rt x"
  shows "run rt (MNextElem acc, st) (more_elements rt xs @ RBracket # rest)
           = run rt (deliver (JArray (acc @ map (reparsed rt) xs)) st) rest"
  using assms
proof (induction xs arbitrary: acc)
  case Nil
  show ?case by simp
next
  case (Cons x xs)
  let ?more = "more_elements rt xs @ RBracket # rest"
  from Cons.prems have rb: "reads_back rt x" by simp
  have "run rt (MNextElem acc, st) (more_elements rt (x # xs) @ RBracket # rest)
          = run rt (MValue, FArray acc # st) (tokens rt x @ ?more)"
    by simp
  also have "\<dots> = value_run rt (FArray acc # st) (tokens rt x @ ?more)"
    using tokens_start [of rt x] by (intro run_MValue) simp
  also have "\<dots> = run rt (deliver (reparsed rt x) (FArray acc # st)) ?more"
    using rb by (simp add: reads_back_def)
  also have "\<dots> = run rt (MNextElem (acc @ [reparsed rt x]), st) ?more"
    by simp
  also have "\<dots> = run rt (deliver (JArray ((acc @ [reparsed rt x]) @ map (reparsed rt) xs)) st) rest"
    using Cons.prems by (intro Cons.IH) simp
  finally show ?case by simp
qed

lemma run_member:
  assumes "reads_back rt (snd m)"
  shows "run rt (MColon acc (fst m), st) (Colon # tokens rt (snd m) @ rest)
           = run rt (MNextMember (CreateDataProperty (fst m) (reparsed rt (snd m)) acc), st) rest"
proof -
  have "run rt (MColon acc (fst m), st) (Colon # tokens rt (snd m) @ rest)
          = run rt (MValue, FObject acc (fst m) # st) (tokens rt (snd m) @ rest)"
    by simp
  also have "\<dots> = value_run rt (FObject acc (fst m) # st) (tokens rt (snd m) @ rest)"
    using tokens_start [of rt "snd m"] by (intro run_MValue) simp
  also have "\<dots> = run rt (deliver (reparsed rt (snd m)) (FObject acc (fst m) # st)) rest"
    using assms by (simp add: reads_back_def)
  finally show ?thesis by simp
qed

lemma run_members:
  assumes "\<forall>m \<in> set xs. reads_back rt (snd m)"
  shows "run rt (MNextMember acc, st) (more_members rt xs @ RBrace # rest)
           = run rt (deliver (JObject
               (foldl (\<lambda>a m. CreateDataProperty (fst m) (reparsed rt (snd m)) a) acc xs)) st) rest"
  using assms
proof (induction xs arbitrary: acc)
  case Nil
  show ?case by simp
next
  case (Cons x xs)
  let ?more = "more_members rt xs @ RBrace # rest"
  from Cons.prems have rb: "reads_back rt (snd x)" by simp
  have "run rt (MNextMember acc, st) (more_members rt (x # xs) @ RBrace # rest)
          = run rt (MColon acc (fst x), st) (Colon # tokens rt (snd x) @ ?more)"
    by simp
  also have "\<dots> = run rt (MNextMember (CreateDataProperty (fst x) (reparsed rt (snd x)) acc), st) ?more"
    by (rule run_member [OF rb])
  also have "\<dots> = run rt (deliver (JObject
      (foldl (\<lambda>a m. CreateDataProperty (fst m) (reparsed rt (snd m)) a)
         (CreateDataProperty (fst x) (reparsed rt (snd x)) acc) xs)) st) rest"
    using Cons.prems by (intro Cons.IH) simp
  finally show ?case by simp
qed

lemma reads_back_array:
  assumes "\<forall>x \<in> set es. reads_back rt x"
  shows "reads_back rt (JArray es)"
  unfolding reads_back_def
proof (intro allI)
  fix st rest
  show "value_run rt st (tokens rt (JArray es) @ rest)
          = run rt (deliver (reparsed rt (JArray es)) st) rest"
  proof (cases es)
    case Nil
    then show ?thesis by (simp add: value_run_def)
  next
    case (Cons e es')
    let ?more = "more_elements rt es' @ RBracket # rest"
    from assms Cons have rb: "reads_back rt e" and rbs: "\<forall>x \<in> set es'. reads_back rt x"
      by simp_all
    have "tokens rt (JArray es) @ rest = LBracket # tokens rt e @ ?more"
      unfolding Cons tokens.simps join_elements by simp
    then have "value_run rt st (tokens rt (JArray es) @ rest)
            = run rt (MFirstElem, st) (tokens rt e @ ?more)"
      by (simp add: value_run_def)
    also have "\<dots> = value_run rt (FArray [] # st) (tokens rt e @ ?more)"
      using tokens_start [of rt e] by (intro run_MFirstElem) simp_all
    also have "\<dots> = run rt (deliver (reparsed rt e) (FArray [] # st)) ?more"
      using rb by (simp add: reads_back_def)
    also have "\<dots> = run rt (MNextElem [reparsed rt e], st) ?more"
      by simp
    also have "\<dots> = run rt (deliver (JArray ([reparsed rt e] @ map (reparsed rt) es')) st) rest"
      by (rule run_elements [OF rbs])
    finally show ?thesis using Cons by simp
  qed
qed

lemma reads_back_object:
  assumes "\<forall>m \<in> set ms. reads_back rt (snd m)"
    and "distinct (map fst ms)" and "ordered_keys (map fst ms)"
  shows "reads_back rt (JObject ms)"
  unfolding reads_back_def
proof (intro allI)
  fix st rest
  have f: "foldl (\<lambda>a m. CreateDataProperty (fst m) (reparsed rt (snd m)) a) [] ms
             = map (\<lambda>m. (fst m, reparsed rt (snd m))) ms"
    using foldl_CreateDataProperty [of "[]" ms "reparsed rt"] assms(2,3) by simp
  show "value_run rt st (tokens rt (JObject ms) @ rest)
          = run rt (deliver (reparsed rt (JObject ms)) st) rest"
  proof (cases ms)
    case Nil
    then show ?thesis by (simp add: value_run_def)
  next
    case (Cons m ms')
    let ?more = "more_members rt ms' @ RBrace # rest"
    from assms(1) Cons have rb: "reads_back rt (snd m)"
      and rbs: "\<forall>x \<in> set ms'. reads_back rt (snd x)"
      by simp_all
    have "tokens rt (JObject ms) @ rest
            = LBrace # TString (fst m) # Colon # tokens rt (snd m) @ ?more"
      unfolding Cons tokens.simps join_members by simp
    then have "value_run rt st (tokens rt (JObject ms) @ rest)
            = run rt (MColon [] (fst m), st) (Colon # tokens rt (snd m) @ ?more)"
      by (simp add: value_run_def)
    also have "\<dots> = run rt (MNextMember (CreateDataProperty (fst m) (reparsed rt (snd m)) []), st) ?more"
      by (rule run_member [OF rb])
    also have "\<dots> = run rt (deliver (JObject
        (foldl (\<lambda>a m. CreateDataProperty (fst m) (reparsed rt (snd m)) a)
           (CreateDataProperty (fst m) (reparsed rt (snd m)) []) ms')) st) rest"
      by (rule run_members [OF rbs])
    also have "foldl (\<lambda>a m. CreateDataProperty (fst m) (reparsed rt (snd m)) a)
           (CreateDataProperty (fst m) (reparsed rt (snd m)) []) ms'
         = foldl (\<lambda>a m. CreateDataProperty (fst m) (reparsed rt (snd m)) a) [] ms"
      using Cons by simp
    finally show ?thesis by (simp add: f)
  qed
qed

lemma canonical_reads_back: "canonical rt v \<Longrightarrow> reads_back rt v"
proof (induction v)
  case JNull
  show ?case by (simp add: reads_back_def value_run_def)
next
  case (JBool b)
  show ?case by (simp add: reads_back_def value_run_def)
next
  case (JNumber n)
  show ?case by (simp add: reads_back_def value_run_def)
next
  case (JString s)
  show ?case by (simp add: reads_back_def value_run_def)
next
  case (JArray es)
  then show ?case by (intro reads_back_array) simp
next
  case (JObject ms)
  have "reads_back rt (snd m)" if "m \<in> set ms" for m
  proof -
    have "snd m \<in> Basic_BNFs.snds m" by (cases m) simp
    with JObject.IH [OF that this] JObject.prems that show ?thesis by simp
  qed
  with JObject.prems show ?case by (intro reads_back_object) simp_all
qed

section \<open>Number tokens are number literals\<close>

lemma takeWhile_append_all:
  "\<forall>x \<in> set ds. P x \<Longrightarrow> r = [] \<or> \<not> P (hd r) \<Longrightarrow> takeWhile P (ds @ r) = ds"
  by (induction ds) (auto simp: takeWhile_eq_Nil_iff neq_Nil_conv)

lemma dropWhile_append_all:
  "\<forall>x \<in> set ds. P x \<Longrightarrow> r = [] \<or> \<not> P (hd r) \<Longrightarrow> dropWhile P (ds @ r) = r"
  by (induction ds) (auto simp: dropWhile_eq_self_iff neq_Nil_conv)

lemma lex_digits_again:
  assumes "lex_digits cs = Some (d, r)" and "r' = [] \<or> \<not> isDigit (hd r')"
  shows "lex_digits (d @ r') = Some (d, r')"
proof -
  from assms(1) have d: "d = takeWhile isDigit cs" "d \<noteq> []"
    by (auto simp: lex_digits_def split: if_splits)
  then have "\<forall>x \<in> set d. isDigit x"
    by (auto dest: set_takeWhileD)
  with assms(2) have "takeWhile isDigit (d @ r') = d" "dropWhile isDigit (d @ r') = r'"
    by (simp_all only: takeWhile_append_all dropWhile_append_all)
  with d(2) show ?thesis
    by (simp only: lex_digits_def if_False)
qed

lemma lex_int_again:
  assumes "lex_int cs = Some (i, r)" and "r' = [] \<or> \<not> isDigit (hd r')"
  shows "lex_int (i @ r') = Some (i, r')"
proof (cases cs)
  case Nil
  with assms show ?thesis by (simp add: lex_int_def)
next
  case (Cons c cs')
  show ?thesis
  proof (cases "c = 0x30")
    case True
    with Cons assms have "i = [0x30]" by (auto simp: lex_int_def)
    then show ?thesis by (simp add: lex_int_def)
  next
    case False
    with Cons assms have i: "i = c # takeWhile isDigit cs'" "isDigit c"
      by (auto simp: lex_int_def split: if_splits)
    have "\<forall>x \<in> set (takeWhile isDigit cs'). isDigit x"
      by (auto dest: set_takeWhileD)
    with assms(2) have "takeWhile isDigit (takeWhile isDigit cs' @ r') = takeWhile isDigit cs'"
      "dropWhile isDigit (takeWhile isDigit cs' @ r') = r'"
      by (simp_all only: takeWhile_append_all dropWhile_append_all)
    with i False show ?thesis
      by (simp add: lex_int_def)
  qed
qed

lemma lex_frac_first:
  "lex_frac cs = Some (f, r) \<Longrightarrow> f = [] \<or> hd f = 0x2E"
  by (auto simp: lex_frac_def split: list.splits if_splits)

lemma lex_exp_first:
  "lex_exp cs = Some (e, r) \<Longrightarrow> e = [] \<or> hd e = 0x65 \<or> hd e = 0x45"
  by (auto simp: lex_exp_def split: list.splits if_splits)

lemma lex_frac_again:
  assumes "lex_frac cs = Some (f, r)"
    and "r' = [] \<or> (\<not> isDigit (hd r') \<and> hd r' \<noteq> 0x2E)"
  shows "lex_frac (f @ r') = Some (f, r')"
proof (cases "f = []")
  case True
  with assms(2) show ?thesis
    by (cases r') (auto simp: lex_frac_def)
next
  case False
  with assms(1) obtain c cs' d where cs: "cs = c # cs'" "c = 0x2E" "lex_digits cs' = Some (d, r)"
    "f = c # d"
    by (auto simp: lex_frac_def split: list.splits if_splits)
  from lex_digits_again [OF cs(3), of r'] assms(2) cs show ?thesis
    by (auto simp: lex_frac_def)
qed

lemma lex_exp_again:
  assumes "lex_exp cs = Some (e, r)"
  shows "lex_exp e = Some (e, [])"
proof (cases "e = []")
  case True
  then show ?thesis by (simp add: lex_exp_def)
next
  case False
  with assms obtain c cs' where cs: "cs = c # cs'" "c = 0x65 \<or> c = 0x45"
    by (auto simp: lex_exp_def split: list.splits if_splits)
  with assms obtain g cs'' where cs': "cs' = g # cs''"
    by (cases cs') (auto simp: lex_exp_def)
  show ?thesis
  proof (cases "g = 0x2B \<or> g = 0x2D")
    case True
    with assms cs cs' obtain d where d: "lex_digits cs'' = Some (d, r)" "e = c # g # d"
      by (auto simp: lex_exp_def)
    from lex_digits_again [OF d(1), of "[]"] d(2) cs True show ?thesis
      by (auto simp: lex_exp_def)
  next
    case False
    with assms cs cs' obtain d where d: "lex_digits (g # cs'') = Some (d, r)" "e = c # d"
      by (auto simp: lex_exp_def)
    from d(1) have "d \<noteq> []" "hd d = g"
      by (auto simp: lex_digits_def split: if_splits)
    with lex_digits_again [OF d(1), of "[]"] d(2) cs False show ?thesis
      by (cases d) (auto simp: lex_exp_def)
  qed
qed

lemma lex_unsigned_again:
  assumes "lex_unsigned cs = Some (n, r)"
  shows "lex_unsigned n = Some (n, [])"
proof -
  from assms obtain i r1 f r2 e where p: "lex_int cs = Some (i, r1)" "lex_frac r1 = Some (f, r2)"
    "lex_exp r2 = Some (e, r)" "n = i @ f @ e"
    by (auto simp: lex_unsigned_def split: option.splits)
  from lex_frac_first [OF p(2)] lex_exp_first [OF p(3)]
  have a: "f @ e = [] \<or> \<not> isDigit (hd (f @ e))"
    by (cases f; cases e) (auto simp: isDigit_def)
  from lex_exp_first [OF p(3)]
  have b: "e = [] \<or> (\<not> isDigit (hd e) \<and> hd e \<noteq> 0x2E)"
    by (auto simp: isDigit_def)
  from lex_int_again [OF p(1) a] lex_frac_again [OF p(2) b] lex_exp_again [OF p(3)] p(4)
  show ?thesis
    by (simp add: lex_unsigned_def)
qed

lemma lex_number_again:
  assumes "lex_number cs = Some (n, r)"
  shows "isJsonNumber n"
proof (cases cs)
  case Nil
  with assms show ?thesis by (simp add: lex_number_def)
next
  case (Cons c cs')
  show ?thesis
  proof (cases "c = 0x2D")
    case True
    with Cons assms obtain u where u: "lex_unsigned cs' = Some (u, r)" "n = c # u"
      by (auto simp: lex_number_def)
    from lex_unsigned_again [OF u(1)] u(2) True show ?thesis
      by (simp add: isJsonNumber_def lex_number_def)
  next
    case False
    with Cons assms have u: "lex_unsigned cs = Some (n, r)"
      by (simp add: lex_number_def)
    then have "n \<noteq> []" "hd n \<noteq> 0x2D"
      using False Cons
      by (auto simp: lex_unsigned_def lex_int_def split: option.splits list.splits if_splits)
    with lex_unsigned_again [OF u] show ?thesis
      by (cases n) (auto simp: isJsonNumber_def lex_number_def)
  qed
qed

lemma tokenize_Cons_cases:
  assumes "tokenize (c # cs) = Some ts"
  shows "\<exists>rest ts'. length rest < length (c # cs) \<and> tokenize rest = Some ts'
           \<and> (ts = ts' \<or> (\<exists>t. ts = t # ts' \<and> valid_token t))"
proof (cases "c = 0x2D \<or> isDigit c")
  case True
  then have nw: "\<not> isJsonWs c" "c \<noteq> 0x7B" "c \<noteq> 0x7D" "c \<noteq> 0x5B" "c \<noteq> 0x5D" "c \<noteq> 0x3A"
    "c \<noteq> 0x2C" "c \<noteq> 0x22"
    by (auto simp: isJsonWs_def isDigit_def)
  with True assms obtain n rest ts' where n: "lex_number (c # cs) = Some (n, rest)"
    "tokenize rest = Some ts'" "ts = TNumber n # ts'"
    by (auto split: option.splits)
  from lex_number_shorter [OF n(1)] lex_number_again [OF n(1)] n(2,3) show ?thesis
    by auto
next
  case False
  note nonum = False
  show ?thesis
  proof (cases "c = 0x22")
    case True
    then have "\<not> isJsonWs c" "c \<noteq> 0x7B" "c \<noteq> 0x7D" "c \<noteq> 0x5B" "c \<noteq> 0x5D" "c \<noteq> 0x3A"
      "c \<noteq> 0x2C"
      by (auto simp: isJsonWs_def)
    with True assms obtain s rest ts' where n: "lex_string cs = Some (s, rest)"
      "tokenize rest = Some ts'" "ts = TString s # ts'"
      by (auto split: option.splits)
    from lex_string_shorter [OF n(1)] n(2,3) show ?thesis
      by auto
  next
    case False
    have "\<exists>k ts'. tokenize (drop k cs) = Some ts' \<and> (ts = ts' \<or> (\<exists>t. ts = t # ts' \<and> valid_token t))"
    proof -
      consider "isJsonWs c" | "\<not> isJsonWs c" "c = 0x7B" | "\<not> isJsonWs c" "c = 0x7D"
        | "\<not> isJsonWs c" "c = 0x5B" | "\<not> isJsonWs c" "c = 0x5D" | "\<not> isJsonWs c" "c = 0x3A"
        | "\<not> isJsonWs c" "c = 0x2C"
        | (kw) "\<not> isJsonWs c" "c \<noteq> 0x7B" "c \<noteq> 0x7D" "c \<noteq> 0x5B" "c \<noteq> 0x5D" "c \<noteq> 0x3A" "c \<noteq> 0x2C"
        by blast
      then show ?thesis
      proof cases
        case kw
        with False nonum assms
        have "(take 4 (c # cs) = str ''true'' \<and> map_option ((#) TTrue) (tokenize (drop 3 cs)) = Some ts)
          \<or> (take 5 (c # cs) = str ''false'' \<and> map_option ((#) TFalse) (tokenize (drop 4 cs)) = Some ts)
          \<or> (take 4 (c # cs) = str ''null'' \<and> map_option ((#) TNull) (tokenize (drop 3 cs)) = Some ts)"
          by (simp split: if_splits)
        then show ?thesis by (elim disjE conjE) (auto simp del: tokenize.simps, blast+)
      qed (use assms in \<open>auto intro: exI [of _ 0]\<close>)
    qed
    then obtain k ts' where "tokenize (drop k cs) = Some ts'"
      "ts = ts' \<or> (\<exists>t. ts = t # ts' \<and> valid_token t)" by blast
    moreover have "length (drop k cs) < length (c # cs)" by simp
    ultimately show ?thesis by blast
  qed
qed

lemma tokenize_valid: "tokenize s = Some ts \<Longrightarrow> \<forall>t \<in> set ts. valid_token t"
proof (induction "length s" arbitrary: s ts rule: less_induct)
  case less
  show ?case
  proof (cases s)
    case Nil
    with less.prems show ?thesis by simp
  next
    case (Cons c cs)
    with less.prems tokenize_Cons_cases [of c cs ts]
    obtain rest ts' where r: "length rest < length s" "tokenize rest = Some ts'"
      "ts = ts' \<or> (\<exists>t. ts = t # ts' \<and> valid_token t)"
      by auto
    from less.hyps [OF r(1) r(2)] r(3) show ?thesis by auto
  qed
qed

section \<open>Parsed values are canonical\<close>

lemma ordered_keys_snoc_other:
  "ordered_keys ks \<Longrightarrow> \<not> isArrayIndex k \<Longrightarrow> ordered_keys (ks @ [k])"
  by (induction ks rule: ordered_keys.induct) simp_all

lemma insertIndex_set: "set (insertIndex k v ms) = insert (k, v) (set ms)"
proof (induction ms)
  case Nil
  show ?case by simp
next
  case (Cons m ms)
  obtain k' v' where m: "m = (k', v')" by (cases m)
  show ?case
  proof (cases "isArrayIndex k' \<and> indexValue k' \<le> indexValue k")
    case True
    with m Cons.IH show ?thesis by auto
  next
    case False
    with m show ?thesis by auto
  qed
qed

lemma insertIndex_keys:
  "set (map fst (insertIndex k v ms)) = insert k (set (map fst ms))"
  by (simp add: insertIndex_set)

lemma insertIndex_hd:
  "hd (map fst (insertIndex k v ms)) = k \<or> (ms \<noteq> [] \<and> hd (map fst (insertIndex k v ms)) = fst (hd ms))"
  by (cases ms) (auto split: if_splits)

lemma insertIndex_nonempty: "insertIndex k v ms \<noteq> []"
  by (cases ms) (auto split: if_splits)

lemma ordered_keys_Cons:
  "ks \<noteq> [] \<Longrightarrow> ordered_keys (k # ks) \<longleftrightarrow>
     (isArrayIndex (hd ks) \<longrightarrow> isArrayIndex k \<and> indexValue k \<le> indexValue (hd ks))
     \<and> ordered_keys ks"
  by (cases ks) simp_all

lemma insertIndex_ordered:
  "ordered_keys (map fst ms) \<Longrightarrow> isArrayIndex k \<Longrightarrow> ordered_keys (map fst (insertIndex k v ms))"
proof (induction ms)
  case Nil
  show ?case by simp
next
  case (Cons m ms)
  obtain k' v' where m: "m = (k', v')" by (cases m)
  show ?case
  proof (cases "isArrayIndex k' \<and> indexValue k' \<le> indexValue k")
    case True
    have o: "ordered_keys (map fst ms)"
      using Cons.prems(1) ordered_keys_tl [of k' "map fst ms"] m by simp
    have IH: "ordered_keys (map fst (insertIndex k v ms))"
      by (rule Cons.IH [OF o Cons.prems(2)])
    have ne: "map fst (insertIndex k v ms) \<noteq> []"
      using insertIndex_nonempty [of k v ms] by simp
    have "isArrayIndex (hd (map fst (insertIndex k v ms))) \<longrightarrow>
            isArrayIndex k' \<and> indexValue k' \<le> indexValue (hd (map fst (insertIndex k v ms)))"
    proof (cases "hd (map fst (insertIndex k v ms)) = k")
      case True
      with \<open>isArrayIndex k' \<and> indexValue k' \<le> indexValue k\<close> show ?thesis by simp
    next
      case False
      with insertIndex_hd [of k v ms]
      have h: "ms \<noteq> []" "hd (map fst (insertIndex k v ms)) = fst (hd ms)" by auto
      then obtain m' ms' where ms: "ms = m' # ms'" by (cases ms) auto
      with Cons.prems(1) m h show ?thesis by simp
    qed
    with IH ne True m show ?thesis
      by (simp add: ordered_keys_Cons)
  next
    case False
    with Cons.prems m show ?thesis
      by auto
  qed
qed

lemma CreateDataProperty_keys:
  assumes "distinct (map fst ms)" and "ordered_keys (map fst ms)"
  shows "distinct (map fst (CreateDataProperty k v ms))
       \<and> ordered_keys (map fst (CreateDataProperty k v ms))"
proof (cases "k \<in> set (map fst ms)")
  case True
  have "map fst (map (\<lambda>(k', v'). if k' = k then (k', v) else (k', v')) ms) = map fst ms"
    by (induction ms) auto
  with True have "map fst (CreateDataProperty k v ms) = map fst ms"
    by (simp only: CreateDataProperty_def if_True)
  with assms show ?thesis
    by (simp only:)
next
  case False
  show ?thesis
  proof (cases "isArrayIndex k")
    case True
    have "distinct (map fst (insertIndex k v ms))"
      using assms(1) False
    proof (induction ms)
      case Nil
      show ?case by simp
    next
      case (Cons m ms)
      then show ?case
        using insertIndex_keys [of k v ms] by (cases m) auto
    qed
    with True False insertIndex_ordered [OF assms(2) True] show ?thesis
      by (simp add: CreateDataProperty_def)
  next
    case notindex: False
    with False assms ordered_keys_snoc_other [OF assms(2) notindex] show ?thesis
      by (simp add: CreateDataProperty_def)
  qed
qed

lemma CreateDataProperty_values:
  "x \<in> set (CreateDataProperty k v ms) \<Longrightarrow> snd x = v \<or> x \<in> set ms"
proof -
  have a: "x \<in> set (insertIndex k v ms) \<Longrightarrow> snd x = v \<or> x \<in> set ms"
    by (induction ms) (auto split: if_splits)
  assume "x \<in> set (CreateDataProperty k v ms)"
  with a show ?thesis
    by (auto simp: CreateDataProperty_def split: if_splits)
qed

lemma canonical_CreateDataProperty:
  assumes "canonical rt (JObject ms)" and "canonical rt v"
  shows "canonical rt (JObject (CreateDataProperty k v ms))"
  using assms CreateDataProperty_keys [of ms k v] CreateDataProperty_values [of _ k v ms]
  by auto

lemma canonical_deliver:
  assumes "canonical rt v" and "\<forall>f \<in> set st. canonical_frame rt f"
  shows "canonical_config rt (deliver v st)"
proof (cases st)
  case Nil
  with assms show ?thesis by (simp add: canonical_config_def)
next
  case (Cons f st')
  show ?thesis
  proof (cases f)
    case (FArray es)
    with Cons assms show ?thesis by (auto simp: canonical_config_def)
  next
    case (FObject ms k)
    with Cons assms have "canonical rt (JObject ms)" by simp
    from canonical_CreateDataProperty [OF this assms(1)] FObject Cons assms(2) show ?thesis
      by (simp add: canonical_config_def)
  qed
qed

lemma canonical_start_value:
  assumes "numbers_roundtrip rt" and "valid_token t" and "\<forall>f \<in> set st. canonical_frame rt f"
    and "start_value rt t st = Some c"
  shows "canonical_config rt c"
proof (cases t)
  case (TNumber n)
  with assms(1,2) have "canonical rt (JNumber (StringToNumber rt n))"
    by (simp add: numbers_roundtrip_def)
  from canonical_deliver [OF this assms(3)] TNumber assms(4) show ?thesis by auto
next
  case (TString s)
  with canonical_deliver [of rt "JString s" st] assms(3,4) show ?thesis by auto
next
  case TTrue
  with canonical_deliver [of rt "JBool True" st] assms(3,4) show ?thesis by auto
next
  case TFalse
  with canonical_deliver [of rt "JBool False" st] assms(3,4) show ?thesis by auto
next
  case TNull
  with canonical_deliver [of rt JNull st] assms(3,4) show ?thesis by auto
qed (use assms in \<open>auto simp: canonical_config_def\<close>)

lemma canonical_step:
  assumes "numbers_roundtrip rt" and "valid_token t" and "canonical_config rt c"
    and "step rt c t = Some c'"
  shows "canonical_config rt c'"
proof -
  obtain m st where c: "c = (m, st)" by (cases c)
  with assms(3) have st: "\<forall>f \<in> set st. canonical_frame rt f" and m: "canonical_mode rt m"
    by (simp_all add: canonical_config_def)
  show ?thesis
  proof (cases m)
    case MValue
    with c assms(4) canonical_start_value [OF assms(1,2) st] show ?thesis by simp
  next
    case MFirstElem
    show ?thesis
    proof (cases "t = RBracket")
      case True
      with MFirstElem c assms(4) canonical_deliver [of rt "JArray []" st] st show ?thesis
        by auto
    next
      case False
      have "\<forall>f \<in> set (FArray [] # st). canonical_frame rt f" using st by simp
      from canonical_start_value [OF assms(1,2) this] False MFirstElem c assms(4)
      show ?thesis by simp
    qed
  next
    case MFirstKey
    with c assms(4) canonical_deliver [of rt "JObject []" st] st show ?thesis
      by (cases t) (auto simp: canonical_config_def)
  next
    case (MKey ms)
    with c assms(4) st m show ?thesis
      by (cases t) (auto simp: canonical_config_def)
  next
    case (MColon ms k)
    with c assms(4) st m show ?thesis
      by (cases t) (auto simp: canonical_config_def)
  next
    case (MNextElem es)
    with c assms(4) st m canonical_deliver [of rt "JArray es" st] show ?thesis
      by (cases t) (auto simp: canonical_config_def)
  next
    case (MNextMember ms)
    with c assms(4) st m canonical_deliver [of rt "JObject ms" st] show ?thesis
      by (cases t) (auto simp: canonical_config_def)
  next
    case (MDone v)
    with c assms(4) show ?thesis by simp
  qed
qed

lemma canonical_run:
  assumes "numbers_roundtrip rt"
  shows "\<forall>t \<in> set ts. valid_token t \<Longrightarrow> canonical_config rt c \<Longrightarrow> run rt c ts = Some c' \<Longrightarrow>
     canonical_config rt c'"
proof (induction ts arbitrary: c)
  case Nil
  then show ?case by simp
next
  case (Cons t ts)
  from Cons.prems(3) obtain c1 where c1: "step rt c t = Some c1" "run rt c1 ts = Some c'"
    by (auto split: option.splits)
  from canonical_step [OF assms _ Cons.prems(2) c1(1)] Cons.prems(1)
  have "canonical_config rt c1" by simp
  from Cons.IH [OF _ this c1(2)] Cons.prems(1) show ?case by simp
qed

lemma JSON_parse_canonical:
  assumes "numbers_roundtrip rt" and "JSON_parse rt s = Some v"
  shows "canonical rt v"
proof -
  from assms(2) obtain ts st where ts: "tokenize s = Some ts"
    "run rt (MValue, []) ts = Some (MDone v, st)"
    by (auto simp: JSON_parse_def split: option.splits mode.splits)
  have "canonical_config rt (MValue, [])" by (simp add: canonical_config_def)
  from canonical_run [OF assms(1) tokenize_valid [OF ts(1)] this ts(2)] show ?thesis
    by (simp add: canonical_config_def)
qed

section \<open>The validator is idempotent\<close>

lemma Serialize_reparsed:
  "canonical rt v \<Longrightarrow>
     SerializeJSONProperty rt gap indent (reparsed rt v) = SerializeJSONProperty rt gap indent v"
proof (induction v arbitrary: indent)
  case (JNumber n)
  then show ?case by (auto simp: good_number_def)
next
  case (JArray es)
  then have "map (SerializeJSONProperty rt gap (indent @ gap)) (map (reparsed rt) es)
               = map (SerializeJSONProperty rt gap (indent @ gap)) es"
    by simp
  then show ?case by (simp del: map_map)
next
  case (JObject ms)
  have "QuoteJSONString (fst m) @ [0x3A, 0x20]
          @ SerializeJSONProperty rt gap (indent @ gap) (reparsed rt (snd m))
        = QuoteJSONString (fst m) @ [0x3A, 0x20]
          @ SerializeJSONProperty rt gap (indent @ gap) (snd m)" if "m \<in> set ms" for m
  proof -
    have "snd m \<in> Basic_BNFs.snds m" by (cases m) simp
    from JObject.IH [OF that this] JObject.prems that show ?thesis by simp
  qed
  then have "map (\<lambda>m. QuoteJSONString (fst m) @ [0x3A, 0x20]
                  @ SerializeJSONProperty rt gap (indent @ gap) (snd m))
               (map (\<lambda>m. (fst m, reparsed rt (snd m))) ms)
           = map (\<lambda>m. QuoteJSONString (fst m) @ [0x3A, 0x20]
                  @ SerializeJSONProperty rt gap (indent @ gap) (snd m)) ms"
    by simp
  then show ?case by (simp del: map_map)
qed simp_all

lemma tokenize_blank:
  "\<forall>c \<in> set s. isWhiteSpace c \<Longrightarrow> tokenize s = None \<or> tokenize s = Some []"
proof (induction s)
  case Nil
  show ?case by simp
next
  case (Cons c cs)
  then have ws: "isWhiteSpace c" and IH: "tokenize cs = None \<or> tokenize cs = Some []"
    by simp_all
  show ?case
  proof (cases "isJsonWs c")
    case True
    with IH show ?thesis by simp
  next
    case False
    from ws have "c \<noteq> 0x7B" "c \<noteq> 0x7D" "c \<noteq> 0x5B" "c \<noteq> 0x5D" "c \<noteq> 0x3A" "c \<noteq> 0x2C"
      "c \<noteq> 0x22" "c \<noteq> 0x2D" "\<not> isDigit c" "c \<noteq> 0x74" "c \<noteq> 0x66" "c \<noteq> 0x6E"
      by (auto simp: isWhiteSpace_def isDigit_def word_le_nat_alt)
    with False show ?thesis
      by (simp add: str_def)
  qed
qed

lemma trim_blank:
  assumes "trim s = []"
  shows "\<forall>c \<in> set s. isWhiteSpace c"
proof -
  from assms have a: "\<forall>x \<in> set (dropWhile isWhiteSpace s). isWhiteSpace x"
    by (simp add: trim_def dropWhile_eq_Nil_conv)
  have "dropWhile isWhiteSpace s = []"
  proof (cases "dropWhile isWhiteSpace s")
    case Nil
    then show ?thesis .
  next
    case (Cons x xs)
    with hd_dropWhile [of isWhiteSpace s] have "\<not> isWhiteSpace x" by simp
    with a Cons show ?thesis by simp
  qed
  then show ?thesis by (simp add: dropWhile_eq_Nil_conv)
qed

lemma JSON_parse_blank: "trim s = [] \<Longrightarrow> JSON_parse rt s = None"
  using tokenize_blank [OF trim_blank, of s]
  by (auto simp: JSON_parse_def)

lemma JSON_parse_stringify:
  assumes "canonical rt v"
  shows "JSON_parse rt (JSON_stringify4 rt v) = Some (reparsed rt v)"
proof -
  have g: "set (replicate 4 (0x20 :: code_unit)) \<subseteq> {0x20}" by simp
  have "tokenize (SerializeJSONProperty rt (replicate 4 0x20) [] v @ [])
          = map_option ((@) (tokens rt v)) (tokenize [])"
    by (rule tokenize_Serialize [OF g assms]) (simp_all add: stops_def)
  then have t: "tokenize (JSON_stringify4 rt v) = Some (tokens rt v)"
    by (simp add: JSON_stringify4_def)
  have "run rt (MValue, []) (tokens rt v) = value_run rt [] (tokens rt v @ [])"
    using tokens_start [of rt v] by (simp add: run_MValue)
  also have "\<dots> = run rt (deliver (reparsed rt v) []) []"
    using canonical_reads_back [OF assms] by (simp only: reads_back_def)
  finally have "run rt (MValue, []) (tokens rt v) = Some (MDone (reparsed rt v), [])"
    by simp
  with t show ?thesis
    by (simp add: JSON_parse_def)
qed

text \<open>
  C6. For every content that \<open>JSON.parse\<close> accepts, \<open>setChangesToDocument\<close> returns
  and writes the pretty-printed text of the parsed value; given that text as content, it
  returns again and writes the same text. The runtime's Number conversions are assumed
  to read back what they print (\<open>numbers_roundtrip\<close>).
\<close>

theorem validator_idempotent:
  assumes "numbers_roundtrip rt" and "JSON_parse rt content = Some v"
  shows "let r1 = setChangesToDocument rt content s;
             t = getText (document (state_of r1));
             r2 = setChangesToDocument rt t s'
         in raised r1 = None \<and> t = JSON_stringify4 rt v
            \<and> raised r2 = None \<and> getText (document (state_of r2)) = t"
proof -
  have c: "canonical rt v"
    by (rule JSON_parse_canonical [OF assms])
  have nb: "trim content \<noteq> []"
    using JSON_parse_blank [of content rt] assms(2) by auto
  have p: "JSON_parse rt (JSON_stringify4 rt v) = Some (reparsed rt v)"
    by (rule JSON_parse_stringify [OF c])
  then have nb': "trim (JSON_stringify4 rt v) \<noteq> []"
    using JSON_parse_blank [of "JSON_stringify4 rt v" rt] by auto
  have e: "JSON_stringify4 rt (reparsed rt v) = JSON_stringify4 rt v"
    by (simp add: JSON_stringify4_def Serialize_reparsed [OF c])
  show ?thesis
    using nb nb' p e assms(2)
    by (simp add: setChangesToDocument_def getContentAsJson_def applyEdit_def Let_def)
qed

lemma verbatim_roundtrip: "numbers_roundtrip verbatim_numbers"
  by (simp add: numbers_roundtrip_def good_number_def verbatim_numbers_def)

theorem validator_idempotent_witness:
  "numbers_roundtrip verbatim_numbers
   \<and> JSON_parse verbatim_numbers (str ''{\"b\":2}'') = Some (JObject [(str ''b'', JNumber (str ''2''))])
   \<and> getText (document (state_of (setChangesToDocument verbatim_numbers (str ''{\"b\":2}'')
        visible_session))) = str ''{\<newline>    \"b\": 2\<newline>}''
   \<and> getText (document (state_of (setChangesToDocument verbatim_numbers
        (str ''{\<newline>    \"b\": 2\<newline>}'') visible_session))) = str ''{\<newline>    \"b\": 2\<newline>}''"
proof -
  have t: "getText (document (state_of (setChangesToDocument verbatim_numbers (str ''{\"b\":2}'')
        visible_session))) = str ''{\<newline>    \"b\": 2\<newline>}''"
    by (simp add: setChangesToDocument_def getContentAsJson_def applyEdit_def trim_b2 parse_b2
        stringify_b2)
       (simp add: str_def)
  show ?thesis
    using validator_idempotent [OF verbatim_roundtrip parse_b2, of visible_session visible_session]
      verbatim_roundtrip parse_b2
    by (simp add: Let_def t stringify_b2)
qed

end
